theory Spec2Isabelle
  imports Main "HOL-Library.Extended_Nat"
begin

section \<open>The coverage environment of gym-flock (envs/spatial/coverage.py)\<close>

text \<open>
  A shallow embedding of \<^verbatim>\<open>CoverageEnv\<close>. The module-level switches are fixed at the
  values the source gives them: \<^verbatim>\<open>REVISIT_NODES = False\<close>, \<^verbatim>\<open>COLLISION_CHECKS = True\<close>,
  \<^verbatim>\<open>PAD_ACTIONS = True\<close>, \<^verbatim>\<open>COMM_EDGES = False\<close>, \<^verbatim>\<open>USE_NODE_HISTORY = False\<close>,
  \<^verbatim>\<open>LAST_EDGE_FEATURE = False\<close>, and the environment is built with \<^verbatim>\<open>hide_nodes = False\<close>.

  Robots and targets share one index space: robots are \<open>0 ..< n_robots\<close>, targets are
  \<open>n_robots ..< n_robots + n_targets\<close>.

  Positions are floating-point pairs in the source. A robot is only ever placed on the
  position of a target (\<^verbatim>\<open>reset\<close> copies a target's row of \<^verbatim>\<open>self.x\<close>, \<^verbatim>\<open>step\<close> copies
  \<^verbatim>\<open>self.x[next_loc]\<close>), so the property \<^verbatim>\<open>closest_targets\<close> (the argmin of the distances)
  is the node the robot stands on. The model keeps that node per robot in the field
  \<open>closest_targets\<close> and leaves the coordinates, the edge distances and the observation
  buffers out.
\<close>

datatype error = IndexError | ValueError | AssertionError

definition N_ACTIONS :: nat where
  "N_ACTIONS = 4"

definition MAX_EDGES :: nat where
  "MAX_EDGES = 4"

definition MAX_COST :: nat where
  "MAX_COST = 1000"

definition NEARBY_DENSITY :: nat where
  "NEARBY_DENSITY = 5"

definition COLLISION_CHECKS :: bool where
  "COLLISION_CHECKS = True"

text \<open>An edge array of the source is a pair of equally long index arrays (senders, receivers).\<close>

type_synonym edges = "nat list \<times> nat list"

record env =
  n_robots :: nat
  n_targets :: nat
  episode_length :: int
  horizon :: int
  max_nodes :: nat
  nearby_starts :: bool
  motion_edges :: edges
  closest_targets :: "nat list"
  visited :: "int list"
  mov_edges :: edges
  step_counter :: int
  last_loc :: "nat list option"
  episode_reward :: int
  start_region :: "bool list"
  graph_cost :: "nat list list option"
  graph_previous :: "int list list option"

definition n_agents :: "env \<Rightarrow> nat" where
  "n_agents e = n_targets e + n_robots e"

text \<open>
  Indexing a Python list or a numpy array with an integer: a negative index counts from
  the end, and an index out of range raises \<^verbatim>\<open>IndexError\<close>.
\<close>

definition np_index :: "'a list \<Rightarrow> int \<Rightarrow> error + 'a" where
  "np_index xs i =
     (if 0 \<le> i \<and> i < int (length xs) then Inr (xs ! nat i)
      else if i < 0 \<and> - int (length xs) \<le> i then Inr (xs ! nat (int (length xs) + i))
      else Inl IndexError)"

text \<open>
  \<^verbatim>\<open>edges[1][np.where(edges[0] == c)]\<close>: the receivers of the edges whose sender is \<open>c\<close>,
  in the order of the edge array.
\<close>

definition receivers_of :: "edges \<Rightarrow> nat \<Rightarrow> nat list" where
  "receivers_of es c = map snd (filter (\<lambda>(s, r). s = c) (zip (fst es) (snd es)))"

subsection \<open>get_action_edges\<close>

text \<open>
  One round of the loop over the robots: the receivers of the motion edges that leave the
  robot's node, padded with the node itself when there are fewer than \<open>N_ACTIONS\<close> of
  them (never shortened), are appended to \<open>receivers\<close>; \<^verbatim>\<open>[i] * 4\<close> is appended to
  \<open>senders\<close>.
\<close>

definition padded_next_nodes :: "env \<Rightarrow> nat \<Rightarrow> nat list" where
  "padded_next_nodes e i =
     (let curr_nodes = closest_targets e;
          next_nodes = receivers_of (motion_edges e) (curr_nodes ! i);
          n_next_nodes = length next_nodes
      in if n_next_nodes < N_ACTIONS
         then next_nodes @ replicate (N_ACTIONS - n_next_nodes) (curr_nodes ! i)
         else next_nodes)"

fun action_edges_loop :: "env \<Rightarrow> nat list \<Rightarrow> edges \<Rightarrow> edges" where
  "action_edges_loop e [] acc = acc"
| "action_edges_loop e (i # rest) (senders, receivers) =
     action_edges_loop e rest (senders @ replicate 4 i, receivers @ padded_next_nodes e i)"

text \<open>
  After the loop the source subtracts \<^verbatim>\<open>self.x[receivers, :]\<close> from \<^verbatim>\<open>self.x[senders, :]\<close>;
  numpy raises \<^verbatim>\<open>ValueError\<close> when the two index arrays differ in length (neither has
  length 1 here).
\<close>

definition get_action_edges :: "env \<Rightarrow> error + edges" where
  "get_action_edges e =
     (case action_edges_loop e [0..<n_robots e] ([], []) of
        (senders, receivers) \<Rightarrow>
          if length senders = length receivers then Inr (senders, receivers)
          else Inl ValueError)"

subsection \<open>_get_obs_reward\<close>

text \<open>
  The part of \<^verbatim>\<open>_get_obs_reward\<close> that touches the episode state: the action edges are
  recomputed and stored doubled in \<open>mov_edges\<close>, the nodes the robots stand on are marked
  visited, the step counter is incremented and \<open>done\<close> and \<open>reward\<close> are computed. The two
  assertions of the source and the write of \<open>n_agents\<close> node features into the
  \<open>max_nodes\<close> rows of the node buffer are kept as error branches; the contents of the
  observation are not modelled.
\<close>

definition mark_visited :: "nat list \<Rightarrow> int list \<Rightarrow> int list" where
  "mark_visited cs v = fold (\<lambda>c v. v[c := 1]) cs v"

definition get_obs_reward :: "env \<Rightarrow> error + (env \<times> int \<times> bool)" where
  "get_obs_reward e =
     (case get_action_edges e of
        Inl err \<Rightarrow> Inl err
      | Inr (s, r) \<Rightarrow>
          if length s \<noteq> N_ACTIONS * n_robots e then Inl AssertionError
          else if \<exists>c \<in> set (closest_targets e). length (visited e) \<le> c then Inl IndexError
          else if max_nodes e * MAX_EDGES < length (r @ s) + length (fst (motion_edges e))
            then Inl AssertionError
          else if max_nodes e < n_agents e then Inl ValueError
          else
            (let old_sum = sum_list (take (n_targets e) (drop (n_robots e) (visited e)));
                 vis = mark_visited (closest_targets e) (visited e);
                 sc = step_counter e + 1;
                 done = (sc = episode_length e
                         \<or> sum_list (drop (n_robots e) vis) = int (n_targets e));
                 reward = sum_list (drop (n_robots e) vis) - old_sum
             in Inr (e\<lparr>mov_edges := (s @ r, r @ s), visited := vis, step_counter := sc,
                       episode_reward := episode_reward e + reward\<rparr>, reward, done)))"

subsection \<open>step\<close>

text \<open>
  \<^verbatim>\<open>self.mov_edges[1][np.where(self.mov_edges[0] == i)][action[i]]\<close>: the node robot \<open>i\<close>
  chose.
\<close>

definition chosen_loc :: "env \<Rightarrow> int list \<Rightarrow> nat \<Rightarrow> error + nat" where
  "chosen_loc e action i =
     (case np_index action (int i) of
        Inl err \<Rightarrow> Inl err
      | Inr a \<Rightarrow> np_index (receivers_of (mov_edges e) i) a)"

text \<open>The first loop of \<^verbatim>\<open>step\<close>: robots that chose their own node are finalized.\<close>

fun noop_loop :: "env \<Rightarrow> int list \<Rightarrow> nat list \<Rightarrow> nat list \<Rightarrow> int list \<Rightarrow> error + int list" where
  "noop_loop e action last_locs [] next_locs = Inr next_locs"
| "noop_loop e action last_locs (i # rest) next_locs =
     (case chosen_loc e action i of
        Inl err \<Rightarrow> Inl err
      | Inr next_loc \<Rightarrow>
          noop_loop e action last_locs rest
            (if next_loc = last_locs ! i then next_locs[i := int next_loc] else next_locs))"

text \<open>
  The second loop: the other robots, in index order, move unless their node is already
  in \<open>next_locs\<close>. The second component is the robots' nodes (\<^verbatim>\<open>self.x[i] = self.x[next_loc]\<close>).
\<close>

fun move_loop ::
  "env \<Rightarrow> int list \<Rightarrow> nat list \<Rightarrow> nat list \<Rightarrow> int list \<times> nat list \<Rightarrow> error + (int list \<times> nat list)"
where
  "move_loop e action last_locs [] st = Inr st"
| "move_loop e action last_locs (i # rest) (next_locs, locs) =
     (if next_locs ! i = - 1 then
        (case chosen_loc e action i of
           Inl err \<Rightarrow> Inl err
         | Inr next_loc \<Rightarrow>
             if \<not> COLLISION_CHECKS \<or> int next_loc \<notin> set next_locs
             then move_loop e action last_locs rest (next_locs[i := int next_loc], locs[i := next_loc])
             else move_loop e action last_locs rest (next_locs[i := int (last_locs ! i)], locs))
      else move_loop e action last_locs rest (next_locs, locs))"

definition resolve_moves :: "env \<Rightarrow> int list \<Rightarrow> error + (int list \<times> nat list)" where
  "resolve_moves e action =
     (let last_locs = closest_targets e in
      case noop_loop e action last_locs [0..<n_robots e] (replicate (length action) (- 1)) of
        Inl err \<Rightarrow> Inl err
      | Inr next_locs \<Rightarrow> move_loop e action last_locs [0..<n_robots e] (next_locs, closest_targets e))"

definition step :: "env \<Rightarrow> int list option \<Rightarrow> error + (env \<times> int \<times> bool)" where
  "step e action =
     (case action of
        None \<Rightarrow> get_obs_reward e
      | Some a \<Rightarrow>
          (case resolve_moves e a of
             Inl err \<Rightarrow> Inl err
           | Inr (next_locs, locs) \<Rightarrow>
               get_obs_reward (e\<lparr>last_loc := Some (closest_targets e), closest_targets := locs\<rparr>)))"

section \<open>Properties\<close>

lemma mark_visited_length: "length (mark_visited cs v) = length v"
  unfolding mark_visited_def by (induction cs arbitrary: v) auto

lemma sum_list_drop_nth:
  "sum_list (drop n (xs :: int list)) = (\<Sum>i = n..<length xs. xs ! i)"
proof (cases "n \<le> length xs")
  case True
  have "sum_list (drop n xs) = (\<Sum>i = 0..<length xs - n. xs ! (n + i))"
    by (simp add: sum_list_sum_nth)
  also have "\<dots> = (\<Sum>i = n..<length xs. xs ! i)"
    using True sum.shift_bounds_nat_ivl[of "\<lambda>i. xs ! i" 0 n "length xs - n"]
    by (simp add: add.commute)
  finally show ?thesis .
next
  case False
  then show ?thesis by simp
qed

lemma count_filter_upt:
  "int (length (filter P [n..<m])) = (\<Sum>i = n..<m. if P i then 1 else 0)"
  by (induction m) auto

lemma newly_visited_count:
  assumes len: "length ys = length (xs :: int list)"
    and step: "\<And>i. i < length xs \<Longrightarrow> ys ! i = xs ! i \<or> (xs ! i = 0 \<and> ys ! i = 1)"
  shows "sum_list (drop n ys) - sum_list (drop n xs)
         = int (length (filter (\<lambda>t. xs ! t = 0 \<and> ys ! t = 1) [n..<length xs]))"
proof -
  have "sum_list (drop n ys) - sum_list (drop n xs) = (\<Sum>i = n..<length xs. ys ! i - xs ! i)"
    by (simp add: sum_list_drop_nth len sum_subtractf)
  also have "\<dots> = (\<Sum>i = n..<length xs. if xs ! i = 0 \<and> ys ! i = 1 then 1 else 0)"
    by (rule sum.cong) (use step in force)+
  finally show ?thesis by (simp add: count_filter_upt)
qed

lemma mark_visited_nth:
  "t < length v \<Longrightarrow> mark_visited cs v ! t = (if t \<in> set cs then 1 else v ! t)"
  unfolding mark_visited_def
proof (induction cs arbitrary: v)
  case Nil
  then show ?case by simp
next
  case (Cons c cs)
  then show ?case by (cases "t = c") (auto simp: nth_list_update)
qed

text \<open>What a successful call of \<open>get_obs_reward\<close> returns.\<close>

lemma get_obs_reward_Inr:
  assumes "get_obs_reward e = Inr (e', reward, d)"
  shows "visited e' = mark_visited (closest_targets e) (visited e)"
    and "step_counter e' = step_counter e + 1"
    and "reward = sum_list (drop (n_robots e) (visited e'))
                  - sum_list (take (n_targets e) (drop (n_robots e) (visited e)))"
    and "d = (step_counter e' = episode_length e
              \<or> sum_list (drop (n_robots e) (visited e')) = int (n_targets e))"
    and "n_robots e' = n_robots e" and "n_targets e' = n_targets e"
    and "episode_length e' = episode_length e"
    and "closest_targets e' = closest_targets e"
    and "motion_edges e' = motion_edges e"
  using assms
  by (auto simp: get_obs_reward_def Let_def split: sum.splits prod.splits if_splits)

lemma step_Inr:
  assumes "step e a = Inr (e', reward, d)"
  shows "\<exists>e0. get_obs_reward e0 = Inr (e', reward, d) \<and> visited e0 = visited e
            \<and> n_robots e0 = n_robots e \<and> n_targets e0 = n_targets e
            \<and> episode_length e0 = episode_length e \<and> step_counter e0 = step_counter e
            \<and> motion_edges e0 = motion_edges e"
proof (cases a)
  case None
  with assms show ?thesis by (auto simp: step_def)
next
  case (Some acts)
  with assms obtain nl locs where
    "get_obs_reward (e\<lparr>last_loc := Some (closest_targets e), closest_targets := locs\<rparr>)
       = Inr (e', reward, d)"
    by (auto simp: step_def split: sum.splits prod.splits)
  then show ?thesis by (intro exI conjI) (assumption, simp_all)
qed

text \<open>A caller that applies \<open>step\<close> to a sequence of actions, between two resets.\<close>

fun run_steps :: "env \<Rightarrow> int list option list \<Rightarrow> error + env" where
  "run_steps e [] = Inr e"
| "run_steps e (a # rest) =
     (case step e a of Inl err \<Rightarrow> Inl err | Inr (e', reward, d) \<Rightarrow> run_steps e' rest)"

text \<open>
  A small episode used to instantiate the theorems: two robots (nodes 0 and 1) and the
  four targets 2, 3, 4, 5 on a line, robots standing on targets 2 and 4, targets 3 and 5
  not yet visited.
\<close>

definition line_env :: env where
  "line_env = \<lparr>n_robots = 2, n_targets = 4, episode_length = 3, horizon = - 1,
     max_nodes = 500, nearby_starts = False,
     motion_edges = ([2, 3, 3, 4, 4, 5], [3, 2, 4, 3, 5, 4]),
     closest_targets = [2, 4], visited = [1, 1, 1, 0, 1, 0],
     mov_edges = ([0, 0, 0, 0, 1, 1, 1, 1, 3, 2, 2, 2, 3, 5, 4, 4],
                  [3, 2, 2, 2, 3, 5, 4, 4, 0, 0, 0, 0, 1, 1, 1, 1]),
     step_counter = 1, last_loc = None, episode_reward = 0,
     start_region = [True, True, True, True], graph_cost = None, graph_previous = None\<rparr>"


lemma step_visited_length:
  assumes "step e a = Inr (e', reward, d)"
  shows "length (visited e') = length (visited e)"
  using step_Inr[OF assms] by (auto dest!: get_obs_reward_Inr(1) simp: mark_visited_length)

lemma step_visited_keeps_one:
  assumes "step e a = Inr (e', reward, d)" and "t < length (visited e)" and "visited e ! t = 1"
  shows "visited e' ! t = 1"
proof -
  from step_Inr[OF assms(1)] obtain e0 where
    g: "get_obs_reward e0 = Inr (e', reward, d)" and v: "visited e0 = visited e"
    by blast
  from get_obs_reward_Inr(1)[OF g] v assms(2,3) show ?thesis
    by (simp add: mark_visited_nth)
qed

lemma step_visited_flags:
  assumes "step e a = Inr (e', reward, d)" and "\<forall>x \<in> set (visited e). x = 0 \<or> x = 1"
  shows "\<forall>x \<in> set (visited e'). x = 0 \<or> x = 1"
proof -
  from step_Inr[OF assms(1)] obtain e0 where
    g: "get_obs_reward e0 = Inr (e', reward, d)" and v: "visited e0 = visited e"
    by blast
  have "visited e' ! t = 0 \<or> visited e' ! t = 1" if "t < length (visited e')" for t
    using that get_obs_reward_Inr(1)[OF g] v assms(2)
    by (auto simp: mark_visited_nth mark_visited_length)
  then show ?thesis by (metis in_set_conv_nth)
qed

text \<open>
  C7. With the revisit rule disabled, a target whose visited flag is 1 keeps the flag 1
  through every later \<open>step\<close> of the episode: no step clears a visited flag.
\<close>

theorem visited_monotone:
  "run_steps e acts = Inr e' \<Longrightarrow> t < length (visited e) \<Longrightarrow> visited e ! t = 1
   \<Longrightarrow> visited e' ! t = 1"
proof (induction acts arbitrary: e)
  case Nil
  then show ?case by simp
next
  case (Cons a acts)
  from Cons.prems(1) obtain e1 reward d where
    s: "step e a = Inr (e1, reward, d)" and r: "run_steps e1 acts = Inr e'"
    by (auto split: sum.splits prod.splits)
  have "t < length (visited e1)" "visited e1 ! t = 1"
    using step_visited_length[OF s] step_visited_keeps_one[OF s] Cons.prems(2,3) by simp_all
  with Cons.IH[OF r] show ?case by simp
qed

theorem visited_monotone_witness:
  "\<exists>e'. run_steps line_env [Some [0, 0], None, Some [1, 1]] = Inr e' \<and> visited e' ! 2 = 1"
proof -
  have "case run_steps line_env [Some [0, 0], None, Some [1, 1]] of
          Inl err \<Rightarrow> False | Inr e' \<Rightarrow> True"
    by code_simp
  then obtain e' where r: "run_steps line_env [Some [0, 0], None, Some [1, 1]] = Inr e'"
    by (auto split: sum.splits)
  have h1: "2 < length (visited line_env)" by code_simp
  have h2: "visited line_env ! 2 = 1" by code_simp
  from visited_monotone[OF r h1 h2] r show ?thesis by blast
qed

text \<open>
  C5. The reward returned by a \<open>step\<close> is the number of targets whose visited flag was 0
  before the step and is 1 after it (the visited array has one 0/1 flag per node, as
  \<open>reset\<close> leaves it).
\<close>

theorem reward_counts_newly_visited:
  assumes "step e a = Inr (e', reward, d)"
    and "length (visited e) = n_agents e"
    and "\<forall>x \<in> set (visited e). x = 0 \<or> x = 1"
  shows "reward = int (length (filter (\<lambda>t. visited e ! t = 0 \<and> visited e' ! t = 1)
                                  [n_robots e..<n_agents e]))"
proof -
  from step_Inr[OF assms(1)] obtain e0 where
    g: "get_obs_reward e0 = Inr (e', reward, d)" and v: "visited e0 = visited e"
    and n: "n_robots e0 = n_robots e" "n_targets e0 = n_targets e"
    by blast
  have vis: "visited e' = mark_visited (closest_targets e0) (visited e)"
    using get_obs_reward_Inr(1)[OF g] v by simp
  have len: "length (visited e') = length (visited e)"
    by (simp add: vis mark_visited_length)
  have whole: "take (n_targets e) (drop (n_robots e) (visited e)) = drop (n_robots e) (visited e)"
    using assms(2) by (simp add: n_agents_def)
  have "reward = sum_list (drop (n_robots e) (visited e')) - sum_list (drop (n_robots e) (visited e))"
    using get_obs_reward_Inr(3)[OF g] v n whole by simp
  also have "\<dots> = int (length (filter (\<lambda>t. visited e ! t = 0 \<and> visited e' ! t = 1)
                                     [n_robots e..<length (visited e)]))"
  proof (rule newly_visited_count[OF len])
    fix i assume i: "i < length (visited e)"
    then have "visited e ! i = 0 \<or> visited e ! i = 1"
      using assms(3) nth_mem by blast
    then show "visited e' ! i = visited e ! i \<or> (visited e ! i = 0 \<and> visited e' ! i = 1)"
      using i by (auto simp: vis mark_visited_nth)
  qed
  finally show ?thesis by (simp add: assms(2))
qed

theorem reward_counts_newly_visited_witness:
  "\<exists>e' d. step line_env (Some [0, 1]) = Inr (e', 2, d)
     \<and> (2 :: int) = int (length (filter (\<lambda>t. visited line_env ! t = 0 \<and> visited e' ! t = 1)
                                        [n_robots line_env..<n_agents line_env]))"
proof -
  have "case step line_env (Some [0, 1]) of Inl err \<Rightarrow> False | Inr (e', r, d) \<Rightarrow> r = 2"
    by code_simp
  then obtain e' d where s: "step line_env (Some [0, 1]) = Inr (e', 2, d)"
    by (auto split: sum.splits prod.splits)
  have h1: "length (visited line_env) = n_agents line_env" by code_simp
  have h2: "\<forall>x \<in> set (visited line_env). x = 0 \<or> x = 1" by code_simp
  from reward_counts_newly_visited[OF s h1 h2] s show ?thesis by blast
qed

subsection \<open>get_action_edges: the number of candidate edges\<close>

lemma action_edges_loop_eq:
  "action_edges_loop e rs (s, r) =
     (s @ concat (map (\<lambda>i. replicate 4 i) rs), r @ concat (map (padded_next_nodes e) rs))"
  by (induction rs arbitrary: s r) auto

lemma length_concat_blocks:
  "(\<And>i. i < n \<Longrightarrow> length (f i) = k) \<Longrightarrow> length (concat (map f [0..<n])) = k * n"
  by (induction n) auto








subsection \<open>step: the collision policy\<close>






text \<open>One round of the second loop, as a case distinction.\<close>

lemma move_loop_Cons:
  assumes "move_loop e a ll (i # rs) (nl, locs) = Inr st'"
  obtains (finalized) "nl ! i \<noteq> - 1" "move_loop e a ll rs (nl, locs) = Inr st'"
  | (moved) d where "nl ! i = - 1" "chosen_loc e a i = Inr d" "int d \<notin> set nl"
      "move_loop e a ll rs (nl[i := int d], locs[i := d]) = Inr st'"
  | (rejected) d where "nl ! i = - 1" "chosen_loc e a i = Inr d" "int d \<in> set nl"
      "move_loop e a ll rs (nl[i := int (ll ! i)], locs) = Inr st'"
  using assms by (auto simp: COLLISION_CHECKS_def split: if_splits sum.splits)

lemma move_loop_frame:
  "move_loop e a ll rs (nl, locs) = Inr (nl', locs') \<Longrightarrow>
     length nl' = length nl \<and> length locs' = length locs
     \<and> (\<forall>k. k \<notin> set rs \<or> nl ! k \<noteq> - 1 \<longrightarrow> nl' ! k = nl ! k \<and> locs' ! k = locs ! k)"
proof (induction rs arbitrary: nl locs)
  case Nil
  then show ?case by simp
next
  case (Cons i rs)
  from Cons.prems show ?case
  proof (cases rule: move_loop_Cons)
    case finalized
    from Cons.IH[OF finalized(2)] finalized(1) show ?thesis by auto
  next
    case (moved d)
    note ih = Cons.IH[OF moved(4)]
    have "nl' ! k = nl ! k \<and> locs' ! k = locs ! k"
      if "k \<notin> set (i # rs) \<or> nl ! k \<noteq> - 1" for k
    proof -
      from that moved(1) have ki: "k \<noteq> i" by auto
      then have "nl[i := int d] ! k = nl ! k" "locs[i := d] ! k = locs ! k" by simp_all
      with ih that ki show ?thesis by auto
    qed
    with ih show ?thesis by simp
  next
    case (rejected d)
    note ih = Cons.IH[OF rejected(4)]
    have "nl' ! k = nl ! k \<and> locs' ! k = locs ! k"
      if "k \<notin> set (i # rs) \<or> nl ! k \<noteq> - 1" for k
    proof -
      from that rejected(1) have ki: "k \<noteq> i" by auto
      then have "nl[i := int (ll ! i)] ! k = nl ! k" by simp
      with ih that ki show ?thesis by auto
    qed
    with ih show ?thesis by simp
  qed
qed

lemma move_loop_keeps_member:
  assumes "move_loop e a ll rs (nl, locs) = Inr (nl', locs')" and "int d \<in> set nl"
  shows "int d \<in> set nl'"
proof -
  from assms(2) obtain k where k: "k < length nl" "nl ! k = int d"
    by (auto simp: in_set_conv_nth)
  then have "nl ! k \<noteq> - 1" by simp
  with move_loop_frame[OF assms(1)] k have "k < length nl'" "nl' ! k = int d" by auto
  then show ?thesis by (metis nth_mem)
qed















subsection \<open>get_n_nearest\<close>

text \<open>
  \<^verbatim>\<open>edges = (self.motion_edges[0] - self.n_robots, self.motion_edges[1] - self.n_robots)\<close>,
  zipped: the motion edges in the index space of the targets.
\<close>

definition target_edges :: "env \<Rightarrow> (int \<times> int) list" where
  "target_edges e =
     zip (map (\<lambda>v. int v - int (n_robots e)) (fst (motion_edges e)))
         (map (\<lambda>v. int v - int (n_robots e)) (snd (motion_edges e)))"

text \<open>
  The \<^verbatim>\<open>while len(n_nearest) < n\<close> loop: each round adds the receivers of all edges whose
  sender is in the set. The loop has no other exit, so the model is a partial function:
  \<open>None\<close> stands for a loop that never ends.
\<close>

partial_function (option) nearest_loop :: "(int \<times> int) list \<Rightarrow> nat \<Rightarrow> int set \<Rightarrow> int set option"
where
  "nearest_loop es n n_nearest =
     (if card n_nearest < n
      then nearest_loop es n (n_nearest \<union> set (map snd (filter (\<lambda>(s, r). s \<in> n_nearest) es)))
      else Some n_nearest)"

declare nearest_loop.simps [code]

definition get_n_nearest :: "env \<Rightarrow> int \<Rightarrow> nat \<Rightarrow> int set option" where
  "get_n_nearest e i n = nearest_loop (target_edges e) n {i}"

text \<open>The nodes that can be reached from \<open>i\<close> along the edges: the component of \<open>i\<close>.\<close>

definition component_of :: "(int \<times> int) list \<Rightarrow> int \<Rightarrow> int set" where
  "component_of es i = {v. (i, v) \<in> (set es)\<^sup>*}"


lemma component_of_bound: "component_of es i \<subseteq> insert i (snd ` set es)"
proof
  fix v assume "v \<in> component_of es i"
  then have "(i, v) \<in> (set es)\<^sup>*" by (simp add: component_of_def)
  then show "v \<in> insert i (snd ` set es)"
    by (cases rule: rtranclE) force+
qed

lemma finite_component_of: "finite (component_of es i)"
  by (rule finite_subset[OF component_of_bound]) simp

lemma grow_in_component:
  assumes "S \<subseteq> component_of es i"
  shows "S \<union> set (map snd (filter (\<lambda>(s, r). s \<in> S) es)) \<subseteq> component_of es i"
proof -
  have "r \<in> component_of es i" if "(s, r) \<in> set es" "s \<in> S" for s r
  proof -
    from assms that(2) have "(i, s) \<in> (set es)\<^sup>*" by (auto simp: component_of_def)
    with that(1) show ?thesis by (auto simp: component_of_def intro: rtrancl_into_rtrancl)
  qed
  with assms show ?thesis by auto
qed

lemma component_in_closed:
  assumes "i \<in> S" and "set (map snd (filter (\<lambda>(s, r). s \<in> S) es)) \<subseteq> S"
  shows "component_of es i \<subseteq> S"
proof
  fix v assume "v \<in> component_of es i"
  then have "(i, v) \<in> (set es)\<^sup>*" by (simp add: component_of_def)
  then show "v \<in> S"
  proof (induction rule: rtrancl_induct)
    case base
    show ?case by (rule assms(1))
  next
    case (step y z)
    then have "z \<in> set (map snd (filter (\<lambda>(s, r). s \<in> S) es))" by force
    with assms(2) show ?case by blast
  qed
qed

text \<open>Whatever the loop returns has at least \<open>n\<close> nodes and only nodes reachable from the start.\<close>

lemma nearest_loop_sound:
  assumes "nearest_loop es n S = Some R"
  shows "n \<le> card R \<and> (S \<subseteq> component_of es i \<longrightarrow> R \<subseteq> component_of es i)"
proof (rule nearest_loop.raw_induct[where
      P = "\<lambda>es n S R. n \<le> card R \<and> (S \<subseteq> component_of es i \<longrightarrow> R \<subseteq> component_of es i)",
      OF _ assms])
  fix f es' n' S' R'
  assume ih: "\<And>es n S y. f es n S = Some y \<Longrightarrow>
                n \<le> card y \<and> (S \<subseteq> component_of es i \<longrightarrow> y \<subseteq> component_of es i)"
    and eq: "(if card S' < n'
              then f es' n' (S' \<union> set (map snd (filter (\<lambda>(s, r). s \<in> S') es')))
              else Some S') = Some R'"
  show "n' \<le> card R' \<and> (S' \<subseteq> component_of es' i \<longrightarrow> R' \<subseteq> component_of es' i)"
  proof (cases "card S' < n'")
    case True
    with eq have "f es' n' (S' \<union> set (map snd (filter (\<lambda>(s, r). s \<in> S') es'))) = Some R'"
      by simp
    from ih[OF this] grow_in_component[of S' es' i] show ?thesis by blast
  next
    case False
    with eq show ?thesis by auto
  qed
qed

text \<open>The loop ends when the component of the start has at least \<open>n\<close> nodes.\<close>

lemma nearest_loop_terminates:
  assumes "i \<in> S" and "S \<subseteq> component_of es i" and "n \<le> card (component_of es i)"
  shows "\<exists>R. nearest_loop es n S = Some R"
  using assms
proof (induction "card (component_of es i) - card S" arbitrary: S rule: less_induct)
  case less
  let ?C = "component_of es i"
  let ?T = "S \<union> set (map snd (filter (\<lambda>(s, r). s \<in> S) es))"
  show ?case
  proof (cases "card S < n")
    case False
    then show ?thesis by (subst nearest_loop.simps) simp
  next
    case True
    have finC: "finite ?C" by (rule finite_component_of)
    have TC: "?T \<subseteq> ?C" by (rule grow_in_component[OF less.prems(2)])
    have "S \<noteq> ?C" using True less.prems(3) by auto
    then have "\<not> ?C \<subseteq> S" using less.prems(2) by auto
    then have "\<not> set (map snd (filter (\<lambda>(s, r). s \<in> S) es)) \<subseteq> S"
      using component_in_closed[OF less.prems(1)] by blast
    then have "S \<subset> ?T" by auto
    moreover have finT: "finite ?T" using finC TC by (rule rev_finite_subset)
    ultimately have lt: "card S < card ?T" by (intro psubset_card_mono)
    have "card ?T \<le> card ?C" using finC TC by (intro card_mono)
    with lt have "card ?C - card ?T < card ?C - card S" by simp
    moreover have "i \<in> ?T" using less.prems(1) by simp
    ultimately obtain R where "nearest_loop es n ?T = Some R"
      using less.hyps[of ?T] TC less.prems(3) by blast
    with True show ?thesis by (subst nearest_loop.simps) simp
  qed
qed

text \<open>
  C10. \<open>get_n_nearest i n\<close> returns when the component of the motion graph that holds
  \<open>i\<close> has at least \<open>n\<close> nodes, and then returns at least \<open>n\<close> nodes, all reachable from
  \<open>i\<close>; when the component has fewer than \<open>n\<close> nodes the loop never ends.
\<close>

theorem get_n_nearest_termination:
  "(n \<le> card (component_of (target_edges e) i) \<longrightarrow>
      (\<exists>S. get_n_nearest e i n = Some S \<and> n \<le> card S
           \<and> S \<subseteq> component_of (target_edges e) i))
   \<and> (card (component_of (target_edges e) i) < n \<longrightarrow> get_n_nearest e i n = None)"
proof (intro conjI impI)
  let ?C = "component_of (target_edges e) i"
  have start: "{i} \<subseteq> ?C" by (simp add: component_of_def)
  {
    assume "n \<le> card ?C"
    with nearest_loop_terminates[of i "{i}" "target_edges e" n] start
    obtain R where R: "nearest_loop (target_edges e) n {i} = Some R" by auto
    from nearest_loop_sound[OF R, of i] start have "n \<le> card R" "R \<subseteq> ?C" by auto
    with R show "\<exists>S. get_n_nearest e i n = Some S \<and> n \<le> card S \<and> S \<subseteq> ?C"
      by (auto simp: get_n_nearest_def)
  }
  {
    assume small: "card ?C < n"
    show "get_n_nearest e i n = None"
    proof (cases "get_n_nearest e i n")
      case None
      then show ?thesis .
    next
      case (Some R)
      then have "nearest_loop (target_edges e) n {i} = Some R" by (simp add: get_n_nearest_def)
      from nearest_loop_sound[OF this, of i] start have "n \<le> card R" "R \<subseteq> ?C" by auto
      then have "n \<le> card ?C"
        using card_mono[OF finite_component_of, of R "target_edges e" i] by simp
      with small show ?thesis by simp
    qed
  }
qed

theorem get_n_nearest_termination_witness:
  "(\<exists>S. get_n_nearest line_env 0 3 = Some S \<and> 3 \<le> card S)
   \<and> get_n_nearest line_env 0 5 = None"
proof -
  let ?C = "component_of (target_edges line_env) 0"
  have run: "get_n_nearest line_env 0 3 = Some {1, 0, 2}" by code_simp
  then have "nearest_loop (target_edges line_env) 3 {0} = Some {1, 0, 2}"
    by (simp add: get_n_nearest_def)
  from nearest_loop_sound[OF this, of 0] have "{1, 0, 2} \<subseteq> ?C"
    by (simp add: component_of_def)
  then have "card {1, 0, 2 :: int} \<le> card ?C"
    by (intro card_mono finite_component_of)
  then have big: "3 \<le> card ?C" by simp
  have "?C \<subseteq> insert 0 (snd ` set (target_edges line_env))" by (rule component_of_bound)
  also have "\<dots> = {0, 1, 2, 3}" by code_simp
  finally have "card ?C \<le> card {0, 1, 2, 3 :: int}" by (intro card_mono) simp_all
  then have small: "card ?C < 5" by simp
  from get_n_nearest_termination[of 3 line_env 0] big
  have "\<exists>S. get_n_nearest line_env 0 3 = Some S \<and> 3 \<le> card S" by blast
  moreover from get_n_nearest_termination[of 5 line_env 0] small
  have "get_n_nearest line_env 0 5 = None" by blast
  ultimately show ?thesis by blast
qed

subsection \<open>_initialize_graph and reset\<close>

text \<open>
  The geometry of an episode comes from \<^verbatim>\<open>_generate_targets\<close> and \<^verbatim>\<open>_get_graph_edges\<close>
  (random roads, floating-point distances; \<^verbatim>\<open>utils.py\<close> is not among the sources) and the
  random draws from \<^verbatim>\<open>self.np_random\<close>. The model takes their results as arguments:
  \<open>n_t\<close>, the number of targets generated; \<open>raw\<close>, the motion edges over \<open>0 ..< n_t\<close> as
  \<^verbatim>\<open>_get_graph_edges\<close> returns them; \<open>seed_node\<close>, the draw \<^verbatim>\<open>np_random.choice(n_targets)\<close>;
  \<open>nearest_landmarks\<close>, the targets drawn for the robots; \<open>random_unvisited_targets\<close>, the
  nodes drawn to be unvisited.

  \<^verbatim>\<open>_initialize_graph\<close>: the node count, the visited array and the motion edges (shifted by
  \<open>n_robots\<close> into the shared index space) are stored; copying the motion edges into the
  edge buffer of \<open>max_nodes * MAX_EDGES\<close> slots raises when they do not fit; with
  \<open>nearby_starts\<close> the start region is \<open>get_n_nearest\<close> of the drawn node (the draw raises
  when there is no target), and that call may never return.
\<close>

definition initialize_graph :: "env \<Rightarrow> nat \<Rightarrow> edges \<Rightarrow> nat \<Rightarrow> (error + env) option" where
  "initialize_graph e n_t raw seed_node =
     (let e1 = e\<lparr>n_targets := n_t,
                 visited := replicate (n_t + n_robots e) 1,
                 motion_edges := (map (\<lambda>v. v + n_robots e) (fst raw),
                                  map (\<lambda>v. v + n_robots e) (snd raw))\<rparr>
      in if max_nodes e * MAX_EDGES < length (fst raw) then Some (Inl ValueError)
         else if nearby_starts e then
           (if n_t = 0 then Some (Inl ValueError)
            else case get_n_nearest e1 (int seed_node) (n_robots e * NEARBY_DENSITY) of
                   None \<Rightarrow> None
                 | Some n_nearest \<Rightarrow>
                     Some (Inr (e1\<lparr>start_region := map (\<lambda>i. int i \<in> n_nearest) [0..<n_t]\<rparr>)))
         else Some (Inr (e1\<lparr>start_region := replicate n_t True\<rparr>)))"

text \<open>
  \<^verbatim>\<open>reset\<close>: the counters are cleared, the graph is rebuilt (\<^verbatim>\<open>_generate_targets\<close> always
  reports a changed graph, so the cached matrices are dropped), the robots are put on
  the drawn targets (drawing \<open>n_robots\<close> distinct targets from the start region raises when
  the region is too small), every node is marked visited but the drawn ones, and
  \<^verbatim>\<open>_get_obs_reward\<close> is called once for the first observation.
\<close>

definition reset :: "env \<Rightarrow> nat \<Rightarrow> edges \<Rightarrow> nat \<Rightarrow> nat list \<Rightarrow> nat list \<Rightarrow> (error + env) option"
where
  "reset e n_t raw seed_node nearest_landmarks random_unvisited_targets =
     (case initialize_graph
             (e\<lparr>episode_reward := 0, step_counter := 0, last_loc := None,
                graph_previous := None, graph_cost := None\<rparr>) n_t raw seed_node of
        None \<Rightarrow> None
      | Some (Inl err) \<Rightarrow> Some (Inl err)
      | Some (Inr e1) \<Rightarrow>
          if length (filter (\<lambda>b. b) (start_region e1)) < n_robots e1 then Some (Inl ValueError)
          else
            (case get_obs_reward
                    (e1\<lparr>closest_targets := map (\<lambda>l. l + n_robots e1) nearest_landmarks,
                        visited := fold (\<lambda>t v. v[t := 0]) random_unvisited_targets
                                     (replicate (n_agents e1) 1)\<rparr>) of
               Inl err \<Rightarrow> Some (Inl err)
             | Inr (e2, reward, d) \<Rightarrow> Some (Inr e2)))"

text \<open>
  An environment as the constructor leaves it (one robot, \<open>episode_length = 3\<close>, unbounded
  horizon), and an episode geometry: six targets on a line.
\<close>

definition fresh_env :: env where
  "fresh_env = \<lparr>n_robots = 1, n_targets = 0, episode_length = 3, horizon = - 1,
     max_nodes = 500, nearby_starts = True, motion_edges = ([], []),
     closest_targets = [], visited = [], mov_edges = ([], []),
     step_counter = 0, last_loc = None, episode_reward = 0,
     start_region = [], graph_cost = None, graph_previous = None\<rparr>"

definition line6 :: edges where
  "line6 = ([0, 1, 1, 2, 2, 3, 3, 4, 4, 5], [1, 0, 2, 1, 3, 2, 4, 3, 5, 4])"


subsection \<open>The done flag\<close>

lemma step_done:
  assumes "step e a = Inr (e', reward, d)"
  shows "step_counter e' = step_counter e + 1"
    and "d \<longleftrightarrow> step_counter e + 1 = episode_length e
              \<or> sum_list (drop (n_robots e) (visited e')) = int (n_targets e)"
    and "episode_length e' = episode_length e"
    and "n_robots e' = n_robots e" and "n_targets e' = n_targets e"
proof -
  from step_Inr[OF assms] obtain e0 where
    g: "get_obs_reward e0 = Inr (e', reward, d)" and
    eq: "n_robots e0 = n_robots e" "n_targets e0 = n_targets e"
      "episode_length e0 = episode_length e" "step_counter e0 = step_counter e"
    by blast
  note r = get_obs_reward_Inr[OF g]
  show "step_counter e' = step_counter e + 1" using r(2) eq by simp
  show "d \<longleftrightarrow> step_counter e + 1 = episode_length e
              \<or> sum_list (drop (n_robots e) (visited e')) = int (n_targets e)"
    using r(2,4) eq by simp
  show "episode_length e' = episode_length e" "n_robots e' = n_robots e"
    "n_targets e' = n_targets e"
    using r(5,6,7) eq by simp_all
qed

lemma run_steps_counter:
  "run_steps e acts = Inr e' \<Longrightarrow>
     step_counter e' = step_counter e + int (length acts)
     \<and> episode_length e' = episode_length e
     \<and> n_robots e' = n_robots e \<and> n_targets e' = n_targets e"
proof (induction acts arbitrary: e)
  case Nil
  then show ?case by simp
next
  case (Cons a acts)
  from Cons.prems obtain e1 reward d where
    s: "step e a = Inr (e1, reward, d)" and r: "run_steps e1 acts = Inr e'"
    by (auto split: sum.splits prod.splits)
  from Cons.IH[OF r] step_done[OF s] show ?case by simp
qed

lemma initialize_graph_fields:
  "initialize_graph e n_t raw seed_node = Some (Inr e1) \<Longrightarrow>
     step_counter e1 = step_counter e \<and> episode_length e1 = episode_length e
     \<and> n_robots e1 = n_robots e \<and> n_targets e1 = n_t"
  by (auto simp: initialize_graph_def Let_def split: if_splits option.splits)

text \<open>\<open>reset\<close> leaves the step counter at 1: its own call of \<open>get_obs_reward\<close> counts.\<close>

lemma reset_step_counter:
  assumes "reset e n_t raw seed_node nearest_landmarks random_unvisited_targets = Some (Inr e0)"
  shows "step_counter e0 = 1" and "episode_length e0 = episode_length e"
    and "n_robots e0 = n_robots e" and "n_targets e0 = n_t"
proof -
  from assms obtain e1 e2 reward d where
    i: "initialize_graph
          (e\<lparr>episode_reward := 0, step_counter := 0, last_loc := None,
             graph_previous := None, graph_cost := None\<rparr>) n_t raw seed_node = Some (Inr e1)"
    and g: "get_obs_reward e2 = Inr (e0, reward, d)"
    and e2: "step_counter e2 = step_counter e1" "episode_length e2 = episode_length e1"
      "n_robots e2 = n_robots e1" "n_targets e2 = n_targets e1"
    by (auto simp: reset_def split: option.splits sum.splits if_splits prod.splits)
  from initialize_graph_fields[OF i] get_obs_reward_Inr(2,5,6,7)[OF g] e2
  show "step_counter e0 = 1" "episode_length e0 = episode_length e"
    "n_robots e0 = n_robots e" "n_targets e0 = n_t"
    by simp_all
qed

text \<open>
  The done flag of the step call that follows \<open>reset\<close> and \<open>length acts\<close> earlier step
  calls: the step budget ends the episode at call number \<open>episode_length - 1\<close>.
\<close>

lemma done_flag_after_reset:
  assumes "reset e n_t raw seed_node nearest_landmarks random_unvisited_targets = Some (Inr e0)"
    and "run_steps e0 acts = Inr e1"
    and "step e1 a = Inr (e2, reward, d)"
  shows "d \<longleftrightarrow> int (length acts) + 2 = episode_length e
             \<or> sum_list (drop (n_robots e) (visited e2)) = int n_t"
  using reset_step_counter[OF assms(1)] run_steps_counter[OF assms(2)] step_done(2)[OF assms(3)]
  by (simp add: add.commute)

text \<open>
  C6. The claim says that an episode with \<open>episode_length = N\<close> in which the targets are
  never all visited returns \<open>done = True\<close> for the first time on the \<open>N\<close>-th step call. In the
  code, with \<open>episode_length = 3\<close> and three targets that stay unvisited, the first step call
  after \<open>reset\<close> returns \<open>done = False\<close> and the second one returns \<open>done = True\<close>: \<open>reset\<close>
  has already counted one step.
\<close>

theorem done_one_step_early:
  "(case reset fresh_env 6 line6 0 [0] [4, 5, 6] of
      Some (Inr e0) \<Rightarrow>
        (case step e0 (Some [0]) of
           Inr (e1, reward1, done1) \<Rightarrow>
             (case step e1 (Some [1]) of
                Inr (e2, reward2, done2) \<Rightarrow>
                  episode_length e0 = 3 \<and> step_counter e0 = 1
                  \<and> \<not> done1 \<and> done2
                  \<and> sum_list (drop (n_robots e2) (visited e2)) = 3 \<and> n_targets e2 = 6
              | Inl err \<Rightarrow> False)
         | Inl err \<Rightarrow> False)
    | _ \<Rightarrow> False)"
  by code_simp

subsection \<open>construct_time_matrix\<close>

text \<open>
  The time matrix is an \<open>n_targets \<times> n_targets\<close> array of floats that are either \<open>inf\<close> or a
  small whole number (a count of edges, exact in a float): the model uses \<open>enat\<close>, with
  \<open>\<infinity>\<close> for \<open>np.Inf\<close>. A matrix is the list of its rows; row \<open>u\<close> holds the costs from
  origin \<open>u\<close>. \<open>prev\<close> is an integer matrix of the same shape.
\<close>

type_synonym tm_state = "enat list list \<times> int list list \<times> bool"

text \<open>A column index of an array with \<open>n\<close> columns (a negative index counts from the end).\<close>

definition col_index :: "nat \<Rightarrow> int \<Rightarrow> error + nat" where
  "col_index n v =
     (if 0 \<le> v \<and> v < int n then Inr (nat v)
      else if v < 0 \<and> - int n \<le> v then Inr (nat (int n + v))
      else Inl IndexError)"

text \<open>
  The body of the \<^verbatim>\<open>for (sender, receiver)\<close> loop, for the columns \<open>s\<close> and \<open>r\<close> the two
  indices select; \<open>sender\<close> is the value written into \<open>prev\<close>.
\<close>

definition relax_edge :: "nat \<Rightarrow> nat \<Rightarrow> int \<Rightarrow> tm_state \<Rightarrow> tm_state" where
  "relax_edge s r sender st =
     (case st of (time_matrix, prev, changed_last_iter) \<Rightarrow>
        (let new_cost = map (\<lambda>row. min (row ! s + 1) (row ! r)) time_matrix;
             prev' = map (\<lambda>(row, p). p[r := (if row ! s + 1 < row ! r then sender else p ! r)])
                       (zip time_matrix prev);
             changed = (changed_last_iter \<or> new_cost \<noteq> map (\<lambda>row. row ! r) time_matrix);
             time_matrix' = map (\<lambda>(row, c). row[r := c]) (zip time_matrix new_cost)
         in (time_matrix', prev', changed)))"

fun relax_all :: "nat \<Rightarrow> (int \<times> int) list \<Rightarrow> tm_state \<Rightarrow> error + tm_state" where
  "relax_all n [] st = Inr st"
| "relax_all n ((sender, receiver) # es) st =
     (case col_index n sender of
        Inl err \<Rightarrow> Inl err
      | Inr s \<Rightarrow>
          (case col_index n receiver of
             Inl err \<Rightarrow> Inl err
           | Inr r \<Rightarrow> relax_all n es (relax_edge s r sender st)))"

text \<open>
  The \<^verbatim>\<open>while\<close> loop. \<^verbatim>\<open>np.sum(time_matrix) == np.Inf\<close> holds exactly when some entry is
  \<open>inf\<close> (the other entries are finite and not negative). The loop is left when the last
  pass changed nothing, when no entry is \<open>inf\<close>, or through the \<^verbatim>\<open>break\<close> when
  \<^verbatim>\<open>n_steps > self.horizon > -1\<close>. The result also reports \<open>changed_last_iter\<close> and
  \<open>n_steps\<close> as they are when the loop is left.
\<close>

partial_function (option) tm_loop ::
  "nat \<Rightarrow> int \<Rightarrow> (int \<times> int) list \<Rightarrow> tm_state \<Rightarrow> nat \<Rightarrow> (error + tm_state \<times> nat) option"
where
  "tm_loop n h es st n_steps =
     (case st of (time_matrix, prev, changed_last_iter) \<Rightarrow>
        if changed_last_iter \<and> \<infinity> \<in> set (concat time_matrix) then
          (case relax_all n es (time_matrix, prev, False) of
             Inl err \<Rightarrow> Some (Inl err)
           | Inr st' \<Rightarrow>
               if h < int (n_steps + 1) \<and> - 1 < h then Some (Inr (st', n_steps + 1))
               else tm_loop n h es st' (n_steps + 1))
        else Some (Inr (st, n_steps)))"

declare tm_loop.simps [code]

text \<open>The initial matrices, and \<^verbatim>\<open>np.nan_to_num(time_matrix, posinf=MAX_COST)\<close>.\<close>

definition init_time_matrix :: "nat \<Rightarrow> enat list list" where
  "init_time_matrix n = map (\<lambda>u. map (\<lambda>v. if u = v then 0 else \<infinity>) [0..<n]) [0..<n]"

definition init_prev :: "nat \<Rightarrow> int list list" where
  "init_prev n = replicate n (replicate n (- 1))"

definition nan_to_num :: "enat \<Rightarrow> nat" where
  "nan_to_num x = (case x of enat k \<Rightarrow> k | \<infinity> \<Rightarrow> MAX_COST)"

definition construct_time_matrix :: "env \<Rightarrow> (error + nat list list \<times> int list list) option" where
  "construct_time_matrix e =
     (case tm_loop (n_targets e) (horizon e) (target_edges e)
             (init_time_matrix (n_targets e), init_prev (n_targets e), True) 0 of
        None \<Rightarrow> None
      | Some (Inl err) \<Rightarrow> Some (Inl err)
      | Some (Inr ((time_matrix, prev, changed_last_iter), n_steps)) \<Rightarrow>
          Some (Inr (map (map nan_to_num) time_matrix, prev)))"


subsection \<open>One relaxation, entry by entry\<close>

definition shape :: "nat \<Rightarrow> enat list list \<Rightarrow> int list list \<Rightarrow> bool" where
  "shape n tm prev \<longleftrightarrow>
     length tm = n \<and> length prev = n
     \<and> (\<forall>row \<in> set tm. length row = n) \<and> (\<forall>p \<in> set prev. length p = n)"

definition edges_in_range :: "nat \<Rightarrow> (int \<times> int) list \<Rightarrow> bool" where
  "edges_in_range n es \<longleftrightarrow> (\<forall>(s, r) \<in> set es. 0 \<le> s \<and> s < int n \<and> 0 \<le> r \<and> r < int n)"

lemma shape_init: "shape n (init_time_matrix n) (init_prev n)"
  by (auto simp: shape_def init_time_matrix_def init_prev_def)

lemma init_time_matrix_nth:
  "u < n \<Longrightarrow> v < n \<Longrightarrow> init_time_matrix n ! u ! v = (if u = v then 0 else \<infinity>)"
  by (simp add: init_time_matrix_def)

lemma init_prev_nth: "u < n \<Longrightarrow> v < n \<Longrightarrow> init_prev n ! u ! v = - 1"
  by (simp add: init_prev_def)

lemma col_index_in_range: "0 \<le> v \<Longrightarrow> v < int n \<Longrightarrow> col_index n v = Inr (nat v)"
  by (simp add: col_index_def)

lemma min_changes_iff: "min (a + 1) b \<noteq> b \<longleftrightarrow> a + 1 < (b :: enat)"
  by (auto simp: min_def)

lemma relax_edge_entries:
  assumes sh: "shape n tm prev" and r: "r < n"
    and rel: "relax_edge s r sender (tm, prev, ch) = (tm', prev', ch')"
  shows "shape n tm' prev'"
    and "\<And>u v. u < n \<Longrightarrow> v < n \<Longrightarrow>
           tm' ! u ! v = (if v = r then min (tm ! u ! s + 1) (tm ! u ! r) else tm ! u ! v)"
    and "\<And>u v. u < n \<Longrightarrow> v < n \<Longrightarrow>
           prev' ! u ! v = (if v = r \<and> tm ! u ! s + 1 < tm ! u ! r then sender else prev ! u ! v)"
    and "ch' \<longleftrightarrow> ch \<or> (\<exists>u < n. tm ! u ! s + 1 < tm ! u ! r)"
proof -
  from sh have len: "length tm = n" "length prev = n"
    and rows: "\<And>u. u < n \<Longrightarrow> length (tm ! u) = n" "\<And>u. u < n \<Longrightarrow> length (prev ! u) = n"
    by (auto simp: shape_def)
  from rel have tm': "tm' = map (\<lambda>(row, c). row[r := c])
                              (zip tm (map (\<lambda>row. min (row ! s + 1) (row ! r)) tm))"
    and prev': "prev' = map (\<lambda>(row, p). p[r := (if row ! s + 1 < row ! r then sender else p ! r)])
                          (zip tm prev)"
    and ch': "ch' = (ch \<or> map (\<lambda>row. min (row ! s + 1) (row ! r)) tm \<noteq> map (\<lambda>row. row ! r) tm)"
    by (simp_all add: relax_edge_def Let_def)
  have row': "tm' ! u = (tm ! u)[r := min (tm ! u ! s + 1) (tm ! u ! r)]" if "u < n" for u
    using that len by (simp add: tm')
  have prow': "prev' ! u = (prev ! u)[r := (if tm ! u ! s + 1 < tm ! u ! r then sender
                                           else prev ! u ! r)]" if "u < n" for u
    using that len by (simp add: prev')
  have "length tm' = n" "length prev' = n" using len by (simp_all add: tm' prev')
  moreover have "\<forall>row \<in> set tm'. length row = n"
    using sh by (auto simp: tm' shape_def dest!: set_zip_leftD)
  moreover have "\<forall>p \<in> set prev'. length p = n"
    using sh by (auto simp: prev' shape_def dest!: set_zip_rightD)
  ultimately show "shape n tm' prev'" by (simp add: shape_def)
  show "tm' ! u ! v = (if v = r then min (tm ! u ! s + 1) (tm ! u ! r) else tm ! u ! v)"
    if "u < n" "v < n" for u v
    using that rows(1)[OF that(1)] by (simp add: row' nth_list_update)
  show "prev' ! u ! v = (if v = r \<and> tm ! u ! s + 1 < tm ! u ! r then sender else prev ! u ! v)"
    if "u < n" "v < n" for u v
    using that rows(2)[OF that(1)] by (auto simp: prow' nth_list_update)
  show "ch' \<longleftrightarrow> ch \<or> (\<exists>u < n. tm ! u ! s + 1 < tm ! u ! r)"
    using len by (auto simp: ch' list_eq_iff_nth_eq min_changes_iff)
qed

subsection \<open>A pass never raises an entry, and lowers one when it reports a change\<close>

lemma relax_all_mono:
  assumes "relax_all n es (tm, prev, ch) = Inr (tm', prev', ch')"
    and "shape n tm prev" and "edges_in_range n es"
  shows "shape n tm' prev'"
    and "\<forall>u < n. \<forall>v < n. tm' ! u ! v \<le> tm ! u ! v"
    and "ch' \<longrightarrow> ch \<or> (\<exists>u < n. \<exists>v < n. tm' ! u ! v < tm ! u ! v)"
    and "\<not> ch' \<longrightarrow> \<not> ch \<and> (\<forall>u < n. \<forall>v < n. tm' ! u ! v = tm ! u ! v)
           \<and> (\<forall>(s, r) \<in> set es. \<forall>u < n. \<not> tm ! u ! nat s + 1 < tm ! u ! nat r)"
  using assms
proof (induction es arbitrary: tm prev ch)
  case Nil
  {
    case 1 then show ?case by simp
  next
    case 2 then show ?case by simp
  next
    case 3 then show ?case by simp
  next
    case 4 then show ?case by simp
  }
next
  case (Cons e es)
  obtain sender receiver where e: "e = (sender, receiver)" by (cases e)
  {
    fix tm prev ch
    assume run: "relax_all n (e # es) (tm, prev, ch) = Inr (tm', prev', ch')"
      and sh: "shape n tm prev" and rng: "edges_in_range n (e # es)"
    from rng e have sr: "0 \<le> sender" "sender < int n" "0 \<le> receiver" "receiver < int n"
      and rng': "edges_in_range n es"
      by (auto simp: edges_in_range_def)
    let ?s = "nat sender" and ?r = "nat receiver"
    from sr have r: "?r < n" by simp
    obtain tm1 prev1 ch1 where st1: "relax_edge ?s ?r sender (tm, prev, ch) = (tm1, prev1, ch1)"
      by (cases "relax_edge ?s ?r sender (tm, prev, ch)") auto
    from run e sr st1 have rest: "relax_all n es (tm1, prev1, ch1) = Inr (tm', prev', ch')"
      by (simp add: col_index_in_range)
    note ent = relax_edge_entries[OF sh r st1]
    note ih = Cons.IH[OF rest ent(1) rng']
    have le1: "tm1 ! u ! v \<le> tm ! u ! v" if "u < n" "v < n" for u v
      using ent(2)[OF that] by simp
    have A: "shape n tm' prev'" by (rule ih(1))
    have B: "\<forall>u < n. \<forall>v < n. tm' ! u ! v \<le> tm ! u ! v"
      using ih(2) le1 by (meson order_trans)
    have C: "ch' \<longrightarrow> ch \<or> (\<exists>u < n. \<exists>v < n. tm' ! u ! v < tm ! u ! v)"
    proof
      assume ch'
      with ih(3) consider "ch1" | u v where "u < n" "v < n" "tm' ! u ! v < tm1 ! u ! v" by blast
      then show "ch \<or> (\<exists>u < n. \<exists>v < n. tm' ! u ! v < tm ! u ! v)"
      proof cases
        case 1
        with ent(4) consider "ch" | u where "u < n" "tm ! u ! ?s + 1 < tm ! u ! ?r" by blast
        then show ?thesis
        proof cases
          case 1 then show ?thesis by simp
        next
          case 2
          then have "tm1 ! u ! ?r < tm ! u ! ?r" using ent(2)[OF 2(1) r] by (simp add: min_def)
          moreover have "tm' ! u ! ?r \<le> tm1 ! u ! ?r" using ih(2) 2(1) r by blast
          ultimately show ?thesis using 2(1) r by (meson order_le_less_trans)
        qed
      next
        case 2
        with le1[OF 2(1,2)] show ?thesis by (meson order_less_le_trans)
      qed
    qed
    have D: "\<not> ch' \<longrightarrow> \<not> ch \<and> (\<forall>u < n. \<forall>v < n. tm' ! u ! v = tm ! u ! v)
           \<and> (\<forall>(s, r) \<in> set (e # es). \<forall>u < n. \<not> tm ! u ! nat s + 1 < tm ! u ! nat r)"
    proof
      assume "\<not> ch'"
      with ih(4) have n1: "\<not> ch1" and eq1: "\<And>u v. u < n \<Longrightarrow> v < n \<Longrightarrow> tm' ! u ! v = tm1 ! u ! v"
        and st: "\<forall>(s, r) \<in> set es. \<forall>u < n. \<not> tm1 ! u ! nat s + 1 < tm1 ! u ! nat r"
        by auto
      from n1 ent(4) have nch: "\<not> ch" and stab: "\<And>u. u < n \<Longrightarrow> \<not> tm ! u ! ?s + 1 < tm ! u ! ?r"
        by auto
      have eq0: "tm1 ! u ! v = tm ! u ! v" if "u < n" "v < n" for u v
        using ent(2)[OF that] stab[OF that(1)] by (auto simp: min_def)
      have "\<forall>u < n. \<not> tm ! u ! nat s + 1 < tm ! u ! nat r" if "(s, r) \<in> set es" for s r
      proof -
        from rng' that have "nat s < n" "nat r < n" by (auto simp: edges_in_range_def)
        with st that eq0 show ?thesis by fastforce
      qed
      with nch eq1 eq0 stab e
      show "\<not> ch \<and> (\<forall>u < n. \<forall>v < n. tm' ! u ! v = tm ! u ! v)
           \<and> (\<forall>(s, r) \<in> set (e # es). \<forall>u < n. \<not> tm ! u ! nat s + 1 < tm ! u ! nat r)"
        by auto
    qed
    note A B C D
  }
  note step = this
  {
    case 1 from step(1)[OF 1] show ?case .
  next
    case 2 from step(2)[OF 2] show ?case .
  next
    case 3 from step(3)[OF 3] show ?case .
  next
    case 4 from step(4)[OF 4] show ?case .
  }
qed

lemma relax_all_succeeds:
  "edges_in_range n es \<Longrightarrow> \<exists>st'. relax_all n es st = Inr st'"
proof (induction es arbitrary: st)
  case Nil
  show ?case by (intro exI[of _ st]) simp
next
  case (Cons e es)
  obtain sender receiver where e: "e = (sender, receiver)" by (cases e)
  from Cons.prems e have "0 \<le> sender" "sender < int n" "0 \<le> receiver" "receiver < int n"
    "edges_in_range n es"
    by (auto simp: edges_in_range_def)
  with Cons.IH e show ?case by (simp add: col_index_in_range)
qed

subsection \<open>The loop ends, and keeps every invariant of a pass\<close>

definition fin_part :: "enat \<Rightarrow> nat" where
  "fin_part x = (case x of enat k \<Rightarrow> k | \<infinity> \<Rightarrow> 0)"

definition loop_measure :: "nat \<Rightarrow> tm_state \<Rightarrow> nat \<times> nat \<times> nat" where
  "loop_measure n st =
     (case st of (tm, prev, ch) \<Rightarrow>
        (if ch \<and> \<infinity> \<in> set (concat tm) then 1 else 0,
         card {i \<in> {..<n} \<times> {..<n}. tm ! fst i ! snd i = \<infinity>},
         \<Sum>i \<in> {..<n} \<times> {..<n}. fin_part (tm ! fst i ! snd i)))"

lemma lex_measure_decreases:
  fixes f f' :: "'a \<Rightarrow> enat"
  assumes fin: "finite A" and le: "\<forall>i \<in> A. f' i \<le> f i" and lt: "\<exists>i \<in> A. f' i < f i"
  shows "((card {i \<in> A. f' i = \<infinity>}, \<Sum>i \<in> A. fin_part (f' i)),
          (card {i \<in> A. f i = \<infinity>}, \<Sum>i \<in> A. fin_part (f i)))
         \<in> less_than <*lex*> less_than"
proof -
  let ?I' = "{i \<in> A. f' i = \<infinity>}" and ?I = "{i \<in> A. f i = \<infinity>}"
  have sub: "?I' \<subseteq> ?I" using le by (auto simp: top_unique)
  have finI: "finite ?I" using fin by simp
  show ?thesis
  proof (cases "?I' = ?I")
    case False
    with sub have "?I' \<subset> ?I" by blast
    then have "card ?I' < card ?I" using finI by (rule psubset_card_mono[rotated])
    then show ?thesis by simp
  next
    case True
    have same: "f' i = \<infinity> \<longleftrightarrow> f i = \<infinity>" if "i \<in> A" for i
      using True that by blast
    have fle: "fin_part (f' i) \<le> fin_part (f i)" if "i \<in> A" for i
    proof (cases "f i")
      case (enat k)
      with le that obtain k' where "f' i = enat k'" "k' \<le> k"
        by (metis enat_ile enat_ord_simps(1))
      with enat show ?thesis by (simp add: fin_part_def)
    next
      case infinity
      with same[OF that] show ?thesis by (simp add: fin_part_def)
    qed
    from lt obtain j where j: "j \<in> A" "f' j < f j" by blast
    have "fin_part (f' j) < fin_part (f j)"
    proof (cases "f j")
      case (enat k)
      with j obtain k' where "f' j = enat k'" "k' < k"
        by (metis enat_ord_simps(2) less_enatE)
      with enat show ?thesis by (simp add: fin_part_def)
    next
      case infinity
      with same[OF j(1)] j(2) show ?thesis by simp
    qed
    with fle j(1) have "(\<Sum>i \<in> A. fin_part (f' i)) < (\<Sum>i \<in> A. fin_part (f i))"
      using fin by (intro sum_strict_mono_ex1) auto
    with True show ?thesis by simp
  qed
qed


lemma wf_lex3: "wf (less_than <*lex*> less_than <*lex*> less_than)"
  by (intro wf_lex_prod wf_less_than)

text \<open>
  The rule for the loop: \<open>I\<close> holds whenever the loop condition is tested, \<open>Q\<close> when the
  loop is left (through the condition or through the \<^verbatim>\<open>break\<close>).
\<close>

lemma tm_loop_rule:
  assumes rng: "edges_in_range n es"
    and leave: "\<And>tm prev ch k.
        I (tm, prev, ch) k \<Longrightarrow> shape n tm prev \<Longrightarrow> \<not> (ch \<and> \<infinity> \<in> set (concat tm))
        \<Longrightarrow> Q (tm, prev, ch) k"
    and pass: "\<And>tm prev ch k tm' prev' ch'.
        I (tm, prev, ch) k \<Longrightarrow> shape n tm prev \<Longrightarrow> ch \<Longrightarrow> \<infinity> \<in> set (concat tm)
        \<Longrightarrow> relax_all n es (tm, prev, False) = Inr (tm', prev', ch')
        \<Longrightarrow> (if h < int (k + 1) \<and> - 1 < h then Q (tm', prev', ch') (k + 1)
             else I (tm', prev', ch') (k + 1))"
  shows "I (tm, prev, ch) k0 \<Longrightarrow> shape n tm prev \<Longrightarrow>
     \<exists>tm' prev' ch' k.
        tm_loop n h es (tm, prev, ch) k0 = Some (Inr ((tm', prev', ch'), k))
        \<and> shape n tm' prev' \<and> Q (tm', prev', ch') k"
proof (induction "loop_measure n (tm, prev, ch)" arbitrary: tm prev ch k0
    rule: wf_induct_rule[OF wf_lex3])
  case (1 tm prev ch k0)
  note less = this
  show ?case
  proof (cases "ch \<and> \<infinity> \<in> set (concat tm)")
    case False
    then have "tm_loop n h es (tm, prev, ch) k0 = Some (Inr ((tm, prev, ch), k0))"
      by (subst tm_loop.simps) auto
    with less(3) leave[OF less(2,3) False] show ?thesis by blast
  next
    case True
    from relax_all_succeeds[OF rng] obtain tm1 prev1 ch1 where
      run: "relax_all n es (tm, prev, False) = Inr (tm1, prev1, ch1)"
      by (metis prod_cases3)
    note mono = relax_all_mono[OF run less(3) rng]
    note post = pass[OF less(2,3) _ _ run]
    show ?thesis
    proof (cases "h < int (k0 + 1) \<and> - 1 < h")
      case brk: True
      have "tm_loop n h es (tm, prev, ch) k0 = Some (Inr ((tm1, prev1, ch1), k0 + 1))"
        using True run brk by (subst tm_loop.simps) auto
      moreover have "Q (tm1, prev1, ch1) (k0 + 1)"
        using post True brk by (auto split: if_splits)
      ultimately show ?thesis using mono(1) by blast
    next
      case nobrk: False
      have unfold: "tm_loop n h es (tm, prev, ch) k0 = tm_loop n h es (tm1, prev1, ch1) (k0 + 1)"
        using True run nobrk by (subst tm_loop.simps) auto
      have I1: "I (tm1, prev1, ch1) (k0 + 1)"
        using post True nobrk by (auto split: if_splits)
      have dec: "(loop_measure n (tm1, prev1, ch1), loop_measure n (tm, prev, ch))
                   \<in> less_than <*lex*> less_than <*lex*> less_than"
      proof (cases "ch1 \<and> \<infinity> \<in> set (concat tm1)")
        case False
        with True show ?thesis by (auto simp: loop_measure_def)
      next
        case again: True
        with mono(3) obtain u v where uv: "u < n" "v < n" "tm1 ! u ! v < tm ! u ! v" by blast
        have "((card {i \<in> {..<n} \<times> {..<n}. tm1 ! fst i ! snd i = \<infinity>},
                \<Sum>i \<in> {..<n} \<times> {..<n}. fin_part (tm1 ! fst i ! snd i)),
               (card {i \<in> {..<n} \<times> {..<n}. tm ! fst i ! snd i = \<infinity>},
                \<Sum>i \<in> {..<n} \<times> {..<n}. fin_part (tm ! fst i ! snd i)))
              \<in> less_than <*lex*> less_than"
        proof (rule lex_measure_decreases)
          show "finite ({..<n} \<times> {..<n})" by simp
          show "\<forall>i \<in> {..<n} \<times> {..<n}. tm1 ! fst i ! snd i \<le> tm ! fst i ! snd i"
            using mono(2) by auto
          show "\<exists>i \<in> {..<n} \<times> {..<n}. tm1 ! fst i ! snd i < tm ! fst i ! snd i"
            using uv by (intro bexI[of _ "(u, v)"]) auto
        qed
        with True again show ?thesis by (auto simp: loop_measure_def)
      qed
      from less(1)[OF dec I1 mono(1)] show ?thesis by (simp add: unfold)
    qed
  qed
qed

subsection \<open>Walks, and what the matrices always satisfy\<close>

text \<open>\<open>walk es u k v\<close>: there is a walk of \<open>k\<close> edges of \<open>es\<close> from \<open>u\<close> to \<open>v\<close>.\<close>

inductive walk :: "(int \<times> int) list \<Rightarrow> int \<Rightarrow> nat \<Rightarrow> int \<Rightarrow> bool" for es u where
  walk_refl: "walk es u 0 u"
| walk_step: "walk es u k s \<Longrightarrow> (s, r) \<in> set es \<Longrightarrow> walk es u (Suc k) r"

lemma walk_0: "walk es u 0 v \<longleftrightarrow> u = v"
  by (auto elim: walk.cases intro: walk_refl)

text \<open>
  The invariant of the relaxation: the diagonal is 0; a finite entry is the length of a
  walk; an off-diagonal entry is \<open>\<infinity>\<close> exactly when its predecessor is \<open>-1\<close>; a
  predecessor other than \<open>-1\<close> is the sender of an edge into the node, and one edge
  closer to the origin than the node.
\<close>

definition tm_inv :: "nat \<Rightarrow> (int \<times> int) list \<Rightarrow> enat list list \<Rightarrow> int list list \<Rightarrow> bool" where
  "tm_inv n es tm prev \<longleftrightarrow>
     (\<forall>u < n. tm ! u ! u = 0)
     \<and> (\<forall>u < n. \<forall>v < n. \<forall>k. tm ! u ! v = enat k \<longrightarrow> walk es (int u) k (int v))
     \<and> (\<forall>u < n. \<forall>v < n. prev ! u ! v = - 1 \<longleftrightarrow> tm ! u ! v = \<infinity> \<or> u = v)
     \<and> (\<forall>u < n. \<forall>v < n. prev ! u ! v \<noteq> - 1 \<longrightarrow>
           (\<exists>s < n. prev ! u ! v = int s \<and> (int s, int v) \<in> set es
                    \<and> tm ! u ! s + 1 \<le> tm ! u ! v))"

lemma tm_inv_init: "tm_inv n es (init_time_matrix n) (init_prev n)"
  by (auto simp: tm_inv_def init_time_matrix_nth init_prev_nth zero_enat_def walk_0)

lemma enat_plus1_eq: "a + 1 = enat k \<Longrightarrow> \<exists>j. a = enat j \<and> k = Suc j"
  by (cases a) (auto simp: one_enat_def)

lemma relax_edge_inv:
  assumes sh: "shape n tm prev" and inv: "tm_inv n es tm prev"
    and edge: "(int s, int r) \<in> set es" and s: "s < n" and r: "r < n"
    and rel: "relax_edge s r (int s) (tm, prev, ch) = (tm', prev', ch')"
  shows "tm_inv n es tm' prev'"
proof -
  note ent = relax_edge_entries[OF sh r rel]
  from inv have diag: "\<And>u. u < n \<Longrightarrow> tm ! u ! u = 0"
    and sound: "\<And>u v k. u < n \<Longrightarrow> v < n \<Longrightarrow> tm ! u ! v = enat k \<Longrightarrow> walk es (int u) k (int v)"
    and sent: "\<And>u v. u < n \<Longrightarrow> v < n \<Longrightarrow> prev ! u ! v = - 1 \<longleftrightarrow> tm ! u ! v = \<infinity> \<or> u = v"
    and pred: "\<And>u v. u < n \<Longrightarrow> v < n \<Longrightarrow> prev ! u ! v \<noteq> - 1 \<Longrightarrow>
           \<exists>s < n. prev ! u ! v = int s \<and> (int s, int v) \<in> set es \<and> tm ! u ! s + 1 \<le> tm ! u ! v"
    by (auto simp: tm_inv_def)
  have le: "tm' ! u ! v \<le> tm ! u ! v" if "u < n" "v < n" for u v
    using ent(2)[OF that] by simp
  have upd: "s \<noteq> r \<and> r \<noteq> u \<and> tm' ! u ! r = tm ! u ! s + 1 \<and> tm' ! u ! s = tm ! u ! s
             \<and> prev' ! u ! r = int s"
    if "u < n" "tm ! u ! s + 1 < tm ! u ! r" for u
  proof -
    from that(2) have sr: "s \<noteq> r" by (cases "tm ! u ! s") (auto simp: one_enat_def)
    from that diag[OF that(1)] have ru: "r \<noteq> u" by auto
    from ent(2)[OF that(1) r] that(2) have "tm' ! u ! r = tm ! u ! s + 1" by (auto simp: min_def)
    moreover from ent(2)[OF that(1) s] sr have "tm' ! u ! s = tm ! u ! s" by simp
    moreover from ent(3)[OF that(1) r] that(2) have "prev' ! u ! r = int s" by simp
    ultimately show ?thesis using sr ru by simp
  qed
  have keep: "tm' ! u ! v = tm ! u ! v \<and> prev' ! u ! v = prev ! u ! v"
    if "u < n" "v < n" "\<not> (v = r \<and> tm ! u ! s + 1 < tm ! u ! r)" for u v
    using ent(2)[OF that(1,2)] ent(3)[OF that(1,2)] that(3) by (auto simp: min_def)
  have D: "tm' ! u ! u = 0" if "u < n" for u
    using keep[OF that that] diag[OF that] by (cases "u = r") auto
  have S: "walk es (int u) k (int v)" if "u < n" "v < n" "tm' ! u ! v = enat k" for u v k
  proof (cases "v = r \<and> tm ! u ! s + 1 < tm ! u ! r")
    case True
    with upd[OF that(1)] that(3) have "tm ! u ! s + 1 = enat k" by simp
    then obtain j where j: "tm ! u ! s = enat j" "k = Suc j" by (auto dest: enat_plus1_eq)
    from sound[OF that(1) s j(1)] edge True j(2) show ?thesis by (auto intro: walk_step)
  next
    case False
    with keep[OF that(1,2)] that(3) sound[OF that(1,2)] show ?thesis by simp
  qed
  have T: "prev' ! u ! v = - 1 \<longleftrightarrow> tm' ! u ! v = \<infinity> \<or> u = v" if "u < n" "v < n" for u v
  proof (cases "v = r \<and> tm ! u ! s + 1 < tm ! u ! r")
    case True
    with upd[OF that(1)] have *: "prev' ! u ! v = int s" "v \<noteq> u" "tm' ! u ! v < tm ! u ! v"
      by auto
    from *(3) have "tm' ! u ! v \<noteq> \<infinity>" by (cases "tm' ! u ! v") simp_all
    with *(1,2) show ?thesis by auto
  next
    case False
    with keep[OF that] sent[OF that] show ?thesis by simp
  qed
  have P: "\<exists>s' < n. prev' ! u ! v = int s' \<and> (int s', int v) \<in> set es
                    \<and> tm' ! u ! s' + 1 \<le> tm' ! u ! v"
    if "u < n" "v < n" "prev' ! u ! v \<noteq> - 1" for u v
  proof (cases "v = r \<and> tm ! u ! s + 1 < tm ! u ! r")
    case True
    with upd[OF that(1)] edge s show ?thesis by (intro exI[of _ s]) auto
  next
    case False
    with keep[OF that(1,2)] that(3) pred[OF that(1,2)] obtain s' where
      s': "s' < n" "prev' ! u ! v = int s'" "(int s', int v) \<in> set es"
      "tm ! u ! s' + 1 \<le> tm ! u ! v"
      by auto
    have "tm' ! u ! s' + 1 \<le> tm ! u ! s' + 1"
      by (rule add_right_mono[OF le[OF that(1) s'(1)]])
    from order_trans[OF this s'(4)] keep[OF that(1,2) False]
    have "tm' ! u ! s' + 1 \<le> tm' ! u ! v" by simp
    with s' show ?thesis by blast
  qed
  show ?thesis unfolding tm_inv_def using D S T P by blast
qed

lemma relax_all_inv:
  assumes "relax_all n es' (tm, prev, ch) = Inr (tm', prev', ch')"
    and "shape n tm prev" and "tm_inv n es tm prev"
    and "edges_in_range n es'" and "set es' \<subseteq> set es"
  shows "tm_inv n es tm' prev'"
  using assms
proof (induction es' arbitrary: tm prev ch)
  case Nil
  then show ?case by simp
next
  case (Cons e es')
  obtain sender receiver where e: "e = (sender, receiver)" by (cases e)
  from Cons.prems(4) e have sr: "0 \<le> sender" "sender < int n" "0 \<le> receiver" "receiver < int n"
    and rng': "edges_in_range n es'"
    by (auto simp: edges_in_range_def)
  let ?s = "nat sender" and ?r = "nat receiver"
  obtain tm1 prev1 ch1 where st1: "relax_edge ?s ?r sender (tm, prev, ch) = (tm1, prev1, ch1)"
    by (cases "relax_edge ?s ?r sender (tm, prev, ch)") auto
  from Cons.prems(1) e sr st1 have rest: "relax_all n es' (tm1, prev1, ch1) = Inr (tm', prev', ch')"
    by (simp add: col_index_in_range)
  have edge: "(int ?s, int ?r) \<in> set es" using Cons.prems(5) e sr by auto
  have st1': "relax_edge ?s ?r (int ?s) (tm, prev, ch) = (tm1, prev1, ch1)"
    using st1 sr by simp
  have sh1: "shape n tm1 prev1"
    using relax_edge_entries(1)[OF Cons.prems(2) _ st1] sr by simp
  have inv1: "tm_inv n es tm1 prev1"
    using relax_edge_inv[OF Cons.prems(2,3) edge _ _ st1'] sr by simp
  from Cons.IH[OF rest sh1 inv1 rng'] Cons.prems(5) show ?case by simp
qed

subsection \<open>What the loop returns\<close>

text \<open>\<open>stable\<close>: relaxing any edge would change nothing.\<close>

definition stable :: "nat \<Rightarrow> (int \<times> int) list \<Rightarrow> enat list list \<Rightarrow> bool" where
  "stable n es tm \<longleftrightarrow> (\<forall>(s, r) \<in> set es. \<forall>u < n. tm ! u ! nat r \<le> tm ! u ! nat s + 1)"

lemma relax_all_edge_bound:
  assumes "relax_all n es (tm, prev, ch) = Inr (tm', prev', ch')"
    and "shape n tm prev" and "edges_in_range n es"
  shows "\<forall>(s, r) \<in> set es. \<forall>u < n. tm' ! u ! nat r \<le> tm ! u ! nat s + 1"
  using assms
proof (induction es arbitrary: tm prev ch)
  case Nil
  then show ?case by simp
next
  case (Cons e es)
  obtain sender receiver where e: "e = (sender, receiver)" by (cases e)
  from Cons.prems(3) e have sr: "0 \<le> sender" "sender < int n" "0 \<le> receiver" "receiver < int n"
    and rng': "edges_in_range n es"
    by (auto simp: edges_in_range_def)
  let ?s = "nat sender" and ?r = "nat receiver"
  from sr have s: "?s < n" and r: "?r < n" by simp_all
  obtain tm1 prev1 ch1 where st1: "relax_edge ?s ?r sender (tm, prev, ch) = (tm1, prev1, ch1)"
    by (cases "relax_edge ?s ?r sender (tm, prev, ch)") auto
  from Cons.prems(1) e sr st1 have rest: "relax_all n es (tm1, prev1, ch1) = Inr (tm', prev', ch')"
    by (simp add: col_index_in_range)
  note ent = relax_edge_entries[OF Cons.prems(2) r st1]
  note mono = relax_all_mono[OF rest ent(1) rng']
  note ih = Cons.IH[OF rest ent(1) rng']
  have le1: "tm1 ! u ! v \<le> tm ! u ! v" if "u < n" "v < n" for u v
    using ent(2)[OF that] by simp
  have head: "tm' ! u ! ?r \<le> tm ! u ! ?s + 1" if "u < n" for u
  proof -
    have "tm' ! u ! ?r \<le> tm1 ! u ! ?r" using mono(2) that r by blast
    also have "\<dots> \<le> tm ! u ! ?s + 1" using ent(2)[OF that r] by simp
    finally show ?thesis .
  qed
  have tail: "tm' ! u ! nat r' \<le> tm ! u ! nat s' + 1" if "(s', r') \<in> set es" "u < n" for s' r' u
  proof -
    from rng' that(1) have s': "nat s' < n" by (auto simp: edges_in_range_def)
    have "tm' ! u ! nat r' \<le> tm1 ! u ! nat s' + 1" using ih that by blast
    also have "\<dots> \<le> tm ! u ! nat s' + 1" by (rule add_right_mono[OF le1[OF that(2) s']])
    finally show ?thesis .
  qed
  show ?case using head tail e by auto
qed


lemma tm_loop_result:
  assumes rng: "edges_in_range n es"
  shows "\<exists>tm prev ch k.
      tm_loop n h es (init_time_matrix n, init_prev n, True) 0 = Some (Inr ((tm, prev, ch), k))
      \<and> shape n tm prev \<and> tm_inv n es tm prev
      \<and> (ch \<and> \<infinity> \<in> set (concat tm) \<longrightarrow> 0 \<le> h \<and> int k = h + 1)
      \<and> (0 \<le> h \<longrightarrow> int k \<le> h + 1)
      \<and> (\<not> ch \<longrightarrow> stable n es tm)
      \<and> (0 < k \<longrightarrow> (\<forall>(s, r) \<in> set es. tm ! nat s ! nat r \<le> 1))
      \<and> (k = 0 \<longrightarrow> \<infinity> \<notin> set (concat (init_time_matrix n)))"
proof -
  define I :: "tm_state \<Rightarrow> nat \<Rightarrow> bool" where
    "I = (\<lambda>st k. case st of (tm, prev, ch) \<Rightarrow>
        tm_inv n es tm prev \<and> (0 \<le> h \<longrightarrow> int k \<le> h) \<and> (\<not> ch \<longrightarrow> stable n es tm)
        \<and> (0 < k \<longrightarrow> (\<forall>(s, r) \<in> set es. tm ! nat s ! nat r \<le> 1))
        \<and> (k = 0 \<longrightarrow> ch \<and> tm = init_time_matrix n))"
  define Q :: "tm_state \<Rightarrow> nat \<Rightarrow> bool" where
    "Q = (\<lambda>st k. case st of (tm, prev, ch) \<Rightarrow>
        tm_inv n es tm prev
        \<and> (ch \<and> \<infinity> \<in> set (concat tm) \<longrightarrow> 0 \<le> h \<and> int k = h + 1)
        \<and> (0 \<le> h \<longrightarrow> int k \<le> h + 1) \<and> (\<not> ch \<longrightarrow> stable n es tm)
        \<and> (0 < k \<longrightarrow> (\<forall>(s, r) \<in> set es. tm ! nat s ! nat r \<le> 1))
        \<and> (k = 0 \<longrightarrow> \<infinity> \<notin> set (concat (init_time_matrix n))))"
  have leave: "Q (tm, prev, ch) k"
    if "I (tm, prev, ch) k" "shape n tm prev" "\<not> (ch \<and> \<infinity> \<in> set (concat tm))"
    for tm prev ch k
    using that by (auto simp: I_def Q_def)
  have pass: "if h < int (k + 1) \<and> - 1 < h then Q (tm', prev', ch') (k + 1)
              else I (tm', prev', ch') (k + 1)"
    if i: "I (tm, prev, ch) k" and sh: "shape n tm prev" and "ch" "\<infinity> \<in> set (concat tm)"
      and run: "relax_all n es (tm, prev, False) = Inr (tm', prev', ch')"
    for tm prev ch k tm' prev' ch'
  proof -
    from i have inv: "tm_inv n es tm prev" and kh: "0 \<le> h \<longrightarrow> int k \<le> h"
      by (auto simp: I_def)
    note mono = relax_all_mono[OF run sh rng]
    have inv': "tm_inv n es tm' prev'"
      by (rule relax_all_inv[OF run sh inv rng]) simp
    have stab: "\<not> ch' \<longrightarrow> stable n es tm'"
    proof
      assume "\<not> ch'"
      with mono(4) have eq: "\<And>u v. u < n \<Longrightarrow> v < n \<Longrightarrow> tm' ! u ! v = tm ! u ! v"
        and st: "\<forall>(s, r) \<in> set es. \<forall>u < n. \<not> tm ! u ! nat s + 1 < tm ! u ! nat r"
        by auto
      have "tm' ! u ! nat r \<le> tm' ! u ! nat s + 1" if "(s, r) \<in> set es" "u < n" for s r u
      proof -
        from rng that(1) have "nat s < n" "nat r < n" by (auto simp: edges_in_range_def)
        with eq that(2) st that(1) show ?thesis by (auto simp: not_less)
      qed
      then show "stable n es tm'" by (auto simp: stable_def)
    qed
    have one: "\<forall>(s, r) \<in> set es. tm' ! nat s ! nat r \<le> 1"
    proof -
      have "tm' ! nat s ! nat r \<le> 1" if "(s, r) \<in> set es" for s r
      proof -
        from rng that have s: "nat s < n" by (auto simp: edges_in_range_def)
        from inv s have "tm ! nat s ! nat s = 0" by (simp add: tm_inv_def)
        with relax_all_edge_bound[OF run sh rng] that s show ?thesis by fastforce
      qed
      then show ?thesis by auto
    qed
    show ?thesis using inv' stab one kh by (auto simp: I_def Q_def)
  qed
  have init: "I (init_time_matrix n, init_prev n, True) 0"
    by (simp add: I_def tm_inv_init)
  from tm_loop_rule[of n es I Q h, OF rng leave pass init shape_init]
  show ?thesis by (auto simp: Q_def)
qed

subsection \<open>construct_time_matrix: the theorems\<close>

text \<open>A motion graph is well formed when its edges connect targets.\<close>

definition motion_graph_ok :: "env \<Rightarrow> bool" where
  "motion_graph_ok e \<longleftrightarrow> edges_in_range (n_targets e) (target_edges e)"





lemma construct_time_matrix_of_loop:
  "tm_loop (n_targets e) (horizon e) (target_edges e)
       (init_time_matrix (n_targets e), init_prev (n_targets e), True) 0
     = Some (Inr ((tm, prev, ch), k))
   \<Longrightarrow> construct_time_matrix e = Some (Inr (map (map nan_to_num) tm, prev))"
  by (simp add: construct_time_matrix_def)










subsection \<open>controller: from decisions to actions\<close>

text \<open>
  The last loop of \<^verbatim>\<open>controller\<close>. Its inputs are the predecessor matrix
  \<^verbatim>\<open>self.graph_previous\<close> (\<open>gp\<close>), the decisions \<open>next_loc\<close> made before it (one node per
  robot, or \<open>-1\<close>; with the default policy they come from the external routing solver)
  and the generator \<^verbatim>\<open>self.np_random\<close>. The generator is modelled by the sequence
  \<open>draws\<close> of the values its calls \<^verbatim>\<open>choice(self.n_actions)\<close> return, and a position in
  that sequence.

  \<^verbatim>\<open>graph_previous[a, b]\<close> indexes rows and columns as numpy does;
  \<^verbatim>\<open>np.where(candidates == next_step)[0][0]\<close> is the first position of \<open>next_step\<close> among
  the robot's candidate nodes and raises \<^verbatim>\<open>IndexError\<close> when there is none.
\<close>

definition prev_entry :: "int list list \<Rightarrow> int \<Rightarrow> int \<Rightarrow> error + int" where
  "prev_entry gp a b = (case np_index gp a of Inl err \<Rightarrow> Inl err | Inr row \<Rightarrow> np_index row b)"

fun first_index :: "nat list \<Rightarrow> int \<Rightarrow> nat option" where
  "first_index [] y = None"
| "first_index (x # xs) y = (if int x = y then Some 0 else map_option Suc (first_index xs y))"




text \<open>The motion graph is undirected: every edge is listed in both directions.\<close>

definition undirected :: "(int \<times> int) list \<Rightarrow> bool" where
  "undirected es \<longleftrightarrow> (\<forall>(s, r) \<in> set es. (r, s) \<in> set es)"

subsection \<open>The candidate edges of a robot, as the controller reads them\<close>

text \<open>
  \<open>mov_edges\<close> is current when it is what \<open>get_obs_reward\<close> stores for the robots' present
  nodes (the controller is called after \<open>reset\<close> or \<open>step\<close>, which end with that call).
\<close>

definition mov_edges_current :: "env \<Rightarrow> bool" where
  "mov_edges_current e \<longleftrightarrow>
     (\<exists>s r. get_action_edges e = Inr (s, r) \<and> mov_edges e = (s @ r, r @ s))"

definition robots_on_targets :: "env \<Rightarrow> bool" where
  "robots_on_targets e \<longleftrightarrow>
     length (closest_targets e) = n_robots e
     \<and> (\<forall>c \<in> set (closest_targets e). n_robots e \<le> c \<and> c < n_agents e)"

lemma first_index_finds:
  "y \<in> int ` set xs \<Longrightarrow> \<exists>a < length xs. first_index xs y = Some a \<and> int (xs ! a) = y"
proof (induction xs)
  case Nil
  then show ?case by simp
next
  case (Cons x xs)
  show ?case
  proof (cases "int x = y")
    case True
    then show ?thesis by (intro exI[of _ 0]) simp
  next
    case False
    with Cons.prems have "y \<in> int ` set xs" by auto
    from Cons.IH[OF this] obtain a where "a < length xs" "first_index xs y = Some a"
      "int (xs ! a) = y" by blast
    with False show ?thesis by (intro exI[of _ "Suc a"]) simp
  qed
qed

lemma blocks_all_four:
  assumes "\<And>j. j < n \<Longrightarrow> k \<le> length (f j)"
    and "length (concat (map f [0..<n])) = k * n"
  shows "\<forall>j < n. length (f j) = k"
  using assms
proof (induction n)
  case 0
  then show ?case by simp
next
  case (Suc n)
  have ge: "k * m \<le> length (concat (map f [0..<m]))" if "m \<le> Suc n" for m
    using that
  proof (induction m)
    case 0
    then show ?case by simp
  next
    case (Suc m)
    then have "k * m \<le> length (concat (map f [0..<m]))" "k \<le> length (f m)"
      using Suc.prems \<open>\<And>j. j < Suc n \<Longrightarrow> k \<le> length (f j)\<close> by simp_all
    then show ?case by simp
  qed
  from Suc.prems(2) have tot: "length (concat (map f [0..<n])) + length (f n) = k * n + k"
    by simp
  from ge[of n] Suc.prems(1)[of n] tot
  have "length (concat (map f [0..<n])) = k * n" "length (f n) = k" by simp_all
  with Suc.IH Suc.prems(1) show ?case by (auto simp: less_Suc_eq)
qed

lemma filter_sender_blocks:
  assumes "\<And>j. j < n \<Longrightarrow> length (f j) = k"
  shows "map snd (filter (\<lambda>(s, r). s = i)
           (zip (concat (map (\<lambda>j. replicate k j) [0..<n])) (concat (map f [0..<n]))))
         = (if i < n then f i else [])"
  using assms
proof (induction n)
  case 0
  then show ?case by simp
next
  case (Suc n)
  have l1: "length (concat (map (\<lambda>j. replicate k j) [0..<n])) = k * n"
    by (intro length_concat_blocks) simp
  have l2: "length (concat (map f [0..<n])) = k * n"
    using Suc.prems by (intro length_concat_blocks) simp
  have last: "map snd (filter (\<lambda>(s, r). s = i) (zip (replicate k n) (f n)))
              = (if i = n then f n else [])"
  proof (cases "i = n")
    case True
    have "filter (\<lambda>(s, r). s = i) (zip (replicate k n) (f n)) = zip (replicate k n) (f n)"
      using True by (intro filter_True) (auto dest: set_zip_leftD)
    with True Suc.prems[of n] show ?thesis by (simp add: map_snd_zip)
  next
    case False
    have "filter (\<lambda>(s, r). s = i) (zip (replicate k n) (f n)) = []"
      using False by (intro filter_False) (auto dest: set_zip_leftD)
    with False show ?thesis by simp
  qed
  from Suc.IH Suc.prems have ih: "map snd (filter (\<lambda>(s, r). s = i)
           (zip (concat (map (\<lambda>j. replicate k j) [0..<n])) (concat (map f [0..<n]))))
         = (if i < n then f i else [])"
    by simp
  show ?case using ih last l1 l2 by (auto simp: less_Suc_eq)
qed

lemma padded_next_nodes_ge: "N_ACTIONS \<le> length (padded_next_nodes e i)"
  by (simp add: padded_next_nodes_def Let_def)

lemma motion_receivers_are_targets:
  assumes "motion_graph_ok e" and "x \<in> set (receivers_of (motion_edges e) c)"
  shows "n_robots e \<le> x \<and> x < n_agents e \<and> (c, x) \<in> set (zip (fst (motion_edges e)) (snd (motion_edges e)))"
proof -
  from assms(2) have mem: "(c, x) \<in> set (zip (fst (motion_edges e)) (snd (motion_edges e)))"
    by (auto simp: receivers_of_def)
  then have "(int c - int (n_robots e), int x - int (n_robots e)) \<in> set (target_edges e)"
    by (force simp: target_edges_def zip_map_map)
  with assms(1) have "0 \<le> int x - int (n_robots e)" "int x - int (n_robots e) < int (n_targets e)"
    by (auto simp: motion_graph_ok_def edges_in_range_def)
  with mem show ?thesis by (simp add: n_agents_def)
qed

lemma padded_next_nodes_are_targets:
  assumes "motion_graph_ok e" and "robots_on_targets e" and "i < n_robots e"
    and "x \<in> set (padded_next_nodes e i)"
  shows "n_robots e \<le> x"
proof -
  from assms(2,3) have c: "n_robots e \<le> closest_targets e ! i"
    by (auto simp: robots_on_targets_def)
  from assms(4) have "x \<in> set (receivers_of (motion_edges e) (closest_targets e ! i))
                      \<or> x = closest_targets e ! i"
    by (auto simp: padded_next_nodes_def Let_def split: if_splits)
  with c motion_receivers_are_targets[OF assms(1)] show ?thesis by blast
qed

text \<open>The controller's view of robot \<open>i\<close>'s candidates is the padded list of its neighbours.\<close>

lemma receivers_of_mov_edges:
  assumes ok: "motion_graph_ok e" and cur: "mov_edges_current e" and rob: "robots_on_targets e"
    and i: "i < n_robots e"
  shows "receivers_of (mov_edges e) i = padded_next_nodes e i"
    and "length (padded_next_nodes e i) = N_ACTIONS"
proof -
  let ?n = "n_robots e"
  let ?S = "concat (map (\<lambda>j. replicate 4 j) [0..<?n])"
  let ?R = "concat (map (padded_next_nodes e) [0..<?n])"
  from cur obtain s r where g: "get_action_edges e = Inr (s, r)"
    and m: "mov_edges e = (s @ r, r @ s)"
    by (auto simp: mov_edges_current_def)
  from g have sr: "s = ?S" "r = ?R" and len: "length ?S = length ?R"
    by (auto simp: get_action_edges_def action_edges_loop_eq split: if_splits)
  have lenS: "length ?S = 4 * ?n" by (intro length_concat_blocks) simp
  have four: "\<forall>j < ?n. length (padded_next_nodes e j) = 4"
  proof (rule blocks_all_four)
    show "4 \<le> length (padded_next_nodes e j)" for j
      using padded_next_nodes_ge[of e j] by (simp add: N_ACTIONS_def)
    show "length ?R = 4 * ?n" using len lenS by simp
  qed
  then show "length (padded_next_nodes e i) = N_ACTIONS" using i by (simp add: N_ACTIONS_def)
  have first: "map snd (filter (\<lambda>(s, r). s = i) (zip ?S ?R)) = padded_next_nodes e i"
    using filter_sender_blocks[of ?n "padded_next_nodes e" 4 i] four i by simp
  have second: "filter (\<lambda>(s, r). s = i) (zip ?R ?S) = []"
  proof (intro filter_False ballI)
    fix p assume "p \<in> set (zip ?R ?S)"
    then have "fst p \<in> set ?R" by (metis prod.collapse set_zip_leftD)
    then obtain j where "j < ?n" "fst p \<in> set (padded_next_nodes e j)" by auto
    from padded_next_nodes_are_targets[OF ok rob this] i show "\<not> (case p of (s, r) \<Rightarrow> s = i)"
      by (cases p) auto
  qed
  show "receivers_of (mov_edges e) i = padded_next_nodes e i"
    using first second len by (simp add: receivers_of_def m sr)
qed

lemma target_edge_is_motion_edge:
  assumes "(int v, int s) \<in> set (target_edges e)"
  shows "s + n_robots e \<in> set (receivers_of (motion_edges e) (v + n_robots e))"
proof -
  from assms obtain a b where ab: "(a, b) \<in> set (zip (fst (motion_edges e)) (snd (motion_edges e)))"
    and eq: "int a - int (n_robots e) = int v" "int b - int (n_robots e) = int s"
    by (auto simp: target_edges_def zip_map_map)
  from eq have "a = v + n_robots e" "b = s + n_robots e" by linarith+
  with ab show ?thesis by (force simp: receivers_of_def)
qed

lemma construct_time_matrix_inv:
  assumes "motion_graph_ok e" and "construct_time_matrix e = Some (Inr (cost, gp))"
  shows "\<exists>tm. shape (n_targets e) tm gp \<and> tm_inv (n_targets e) (target_edges e) tm gp
              \<and> cost = map (map nan_to_num) tm"
proof -
  from assms(1) have rng: "edges_in_range (n_targets e) (target_edges e)"
    by (simp add: motion_graph_ok_def)
  from tm_loop_result[OF rng, of "horizon e"] obtain tm prev ch k where
    loop: "tm_loop (n_targets e) (horizon e) (target_edges e)
             (init_time_matrix (n_targets e), init_prev (n_targets e), True) 0
           = Some (Inr ((tm, prev, ch), k))"
    and sh: "shape (n_targets e) tm prev" and inv: "tm_inv (n_targets e) (target_edges e) tm prev"
    by blast
  from construct_time_matrix_of_loop[OF loop] assms(2) have "cost = map (map nan_to_num) tm"
    "gp = prev" by simp_all
  with sh inv show ?thesis by blast
qed

lemma np_index_Inr:
  assumes "np_index xs a = Inr x"
  shows "\<exists>u < length xs. x = xs ! u"
proof (cases "0 \<le> a \<and> a < int (length xs)")
  case True
  with assms have "x = xs ! nat a" by (simp add: np_index_def)
  moreover from True have "nat a < length xs" by linarith
  ultimately show ?thesis by blast
next
  case False
  with assms have neg: "a < 0" "- int (length xs) \<le> a" and x: "x = xs ! nat (int (length xs) + a)"
    by (auto simp: np_index_def split: if_splits)
  from neg have "nat (int (length xs) + a) < length xs" by linarith
  with x show ?thesis by blast
qed

lemma np_index_in_range: "0 \<le> a \<Longrightarrow> a < int (length xs) \<Longrightarrow> np_index xs a = Inr (xs ! nat a)"
  by (simp add: np_index_def)

subsection \<open>The next hop is a candidate\<close>

lemma in_padded_next_nodes:
  "x \<in> set (receivers_of (motion_edges e) (closest_targets e ! i))
   \<Longrightarrow> x \<in> set (padded_next_nodes e i)"
  by (simp add: padded_next_nodes_def Let_def)

lemma next_hop_among_candidates:
  assumes ok: "motion_graph_ok e" and und: "undirected (target_edges e)"
    and gp: "construct_time_matrix e = Some (Inr (cost, gp))"
    and cur: "mov_edges_current e" and rob: "robots_on_targets e" and i: "i < n_robots e"
    and ent: "prev_entry gp a (int (closest_targets e ! i) - int (n_robots e)) = Inr p"
    and ne: "p \<noteq> - 1"
  shows "\<exists>k < N_ACTIONS.
           first_index (receivers_of (mov_edges e) i) (p + int (n_robots e)) = Some k
           \<and> int (receivers_of (mov_edges e) i ! k) = p + int (n_robots e)
           \<and> receivers_of (mov_edges e) i ! k
               \<in> set (receivers_of (motion_edges e) (closest_targets e ! i))"
proof -
  let ?n = "n_targets e" and ?nr = "n_robots e" and ?c = "closest_targets e ! i"
  from construct_time_matrix_inv[OF ok gp] obtain tm where
    sh: "shape ?n tm gp" and inv: "tm_inv ?n (target_edges e) tm gp"
    by blast
  from rob i have c: "?nr \<le> ?c" "?c < n_agents e" by (auto simp: robots_on_targets_def)
  define v where "v = ?c - ?nr"
  from c have v: "v < ?n" "int ?c - int ?nr = int v" "v + ?nr = ?c"
    by (auto simp: v_def n_agents_def)
  from ent obtain row where row: "np_index gp a = Inr row" and col: "np_index row (int v) = Inr p"
    by (auto simp: prev_entry_def v(2) split: sum.splits)
  from np_index_Inr[OF row] sh obtain u where u: "u < ?n" "row = gp ! u"
    by (auto simp: shape_def)
  with sh have "length row = ?n" by (auto simp: shape_def)
  with col v(1) have p: "p = gp ! u ! v" using np_index_in_range[of "int v" row] u(2) by simp
  from inv u(1) v(1) ne p obtain s where s: "s < ?n" "p = int s"
    "(int s, int v) \<in> set (target_edges e)"
    unfolding tm_inv_def by blast
  from und s(3) have "(int v, int s) \<in> set (target_edges e)" by (auto simp: undirected_def)
  from target_edge_is_motion_edge[OF this] v(3)
  have nb: "s + ?nr \<in> set (receivers_of (motion_edges e) ?c)" by simp
  then have "s + ?nr \<in> set (padded_next_nodes e i)" by (rule in_padded_next_nodes)
  then have "p + int ?nr \<in> int ` set (receivers_of (mov_edges e) i)"
    using receivers_of_mov_edges(1)[OF ok cur rob i] s(2) by force
  from first_index_finds[OF this] obtain k where
    k: "k < length (receivers_of (mov_edges e) i)"
    "first_index (receivers_of (mov_edges e) i) (p + int ?nr) = Some k"
    "int (receivers_of (mov_edges e) i ! k) = p + int ?nr"
    by blast
  from k(3) s(2) have "receivers_of (mov_edges e) i ! k = s + ?nr" by simp
  with k nb receivers_of_mov_edges[OF ok cur rob i] show ?thesis
    by (intro exI[of _ k]) simp
qed

text \<open>
  C9. In the controller, when a robot's decision is not \<open>-1\<close> and the predecessor entry
  for (decision, current node) is not \<open>-1\<close>, the next hop it names is among the robot's
  \<open>N_ACTIONS\<close> candidate nodes in \<open>mov_edges\<close>, and it is a neighbour of the robot's node
  in the motion graph: the lookup of the action index finds it. (The motion graph is
  undirected, \<open>graph_previous\<close> is what \<open>construct_time_matrix\<close> returns for it, and
  \<open>mov_edges\<close> is current.)
\<close>

theorem next_hop_lookup_succeeds:
  assumes "motion_graph_ok e" and "undirected (target_edges e)"
    and "construct_time_matrix e = Some (Inr (cost, gp))"
    and "mov_edges_current e" and "robots_on_targets e" and "i < n_robots e"
    and "next_loc ! i \<noteq> - 1"
    and "prev_entry gp (next_loc ! i - int (n_robots e))
           (int (closest_targets e ! i) - int (n_robots e)) = Inr p"
    and "p \<noteq> - 1"
  shows "\<exists>k < N_ACTIONS.
           first_index (receivers_of (mov_edges e) i) (p + int (n_robots e)) = Some k
           \<and> int (receivers_of (mov_edges e) i ! k) = p + int (n_robots e)
           \<and> receivers_of (mov_edges e) i ! k
               \<in> set (receivers_of (motion_edges e) (closest_targets e ! i))"
  using next_hop_among_candidates[OF assms(1-6,8,9)] .

lemma line_env_facts:
  shows "motion_graph_ok line_env" and "undirected (target_edges line_env)"
    and "construct_time_matrix line_env
         = Some (Inr ([[0, 1, 2, 3], [1, 0, 1, 2], [2, 1, 0, 1], [3, 2, 1, 0]],
                      [[- 1, 0, 1, 2], [1, - 1, 1, 2], [1, 2, - 1, 2], [1, 2, 3, - 1]]))"
    and "mov_edges_current line_env" and "robots_on_targets line_env"
proof -
  show "motion_graph_ok line_env" by code_simp
  show "undirected (target_edges line_env)" by code_simp
  show "construct_time_matrix line_env
         = Some (Inr ([[0, 1, 2, 3], [1, 0, 1, 2], [2, 1, 0, 1], [3, 2, 1, 0]],
                      [[- 1, 0, 1, 2], [1, - 1, 1, 2], [1, 2, - 1, 2], [1, 2, 3, - 1]]))"
    by code_simp
  have "get_action_edges line_env = Inr ([0, 0, 0, 0, 1, 1, 1, 1], [3, 2, 2, 2, 3, 5, 4, 4])"
    by code_simp
  moreover have "mov_edges line_env
      = ([0, 0, 0, 0, 1, 1, 1, 1] @ [3, 2, 2, 2, 3, 5, 4, 4],
         [3, 2, 2, 2, 3, 5, 4, 4] @ [0, 0, 0, 0, 1, 1, 1, 1])"
    by code_simp
  ultimately show "mov_edges_current line_env" unfolding mov_edges_current_def by blast
  show "robots_on_targets line_env" by code_simp
qed

theorem next_hop_lookup_succeeds_witness:
  "\<exists>k < N_ACTIONS. first_index (receivers_of (mov_edges line_env) 0) (1 + int (n_robots line_env))
                     = Some k"
proof -
  let ?gp = "[[- 1, 0, 1, 2], [1, - 1, 1, 2], [1, 2, - 1, 2], [1, 2, 3, - 1 :: int]]"
  have i: "0 < n_robots line_env" by code_simp
  have d: "[5, - 1 :: int] ! 0 \<noteq> - 1" by simp
  have ent: "prev_entry ?gp ([5, - 1] ! 0 - int (n_robots line_env))
           (int (closest_targets line_env ! 0) - int (n_robots line_env)) = Inr 1"
    by code_simp
  have ne: "(1 :: int) \<noteq> - 1" by simp
  from next_hop_lookup_succeeds[OF line_env_facts i d ent ne] show ?thesis by blast
qed

subsection \<open>The whole translation loop\<close>






end
